theory Spec2Isabelle
  imports Main "HOL-Library.Word" "HOL-Library.Sublist"
begin

unbundle bit_operations_syntax

section \<open>Errors, vectors and ports\<close>

text \<open>
  The simulator has no recoverable errors: \<^verbatim>\<open>std::abort()\<close>, a failed \<^verbatim>\<open>assert\<close>, an
  uncaught \<^verbatim>\<open>std::out_of_range\<close> of \<^verbatim>\<open>vector::at\<close> or \<^verbatim>\<open>bitset::test\<close>, and the
  dereference of a null \<^verbatim>\<open>dynamic_pointer_cast\<close> all end the program. Each is a value
  of \<open>error\<close>; a function that can end the program returns \<open>error + 'a\<close>.
\<close>

datatype assert_site = HT_at | HT_allocate | HT_release | LSU_mask_none

datatype error = Abort | AssertFailed assert_site | OutOfRange | NullDeref | DivByZero

definition bindE :: "error + 'a \<Rightarrow> ('a \<Rightarrow> error + 'b) \<Rightarrow> error + 'b" where
  "bindE m f = (case m of Inl e \<Rightarrow> Inl e | Inr x \<Rightarrow> f x)"

text \<open>\<^verbatim>\<open>std::vector::at\<close>: throws when the index is out of range.\<close>

definition at_vec :: "'a list \<Rightarrow> nat \<Rightarrow> error + 'a" where
  "at_vec xs i = (if i < length xs then Inr (xs ! i) else Inl OutOfRange)"

text \<open>A counted \<^verbatim>\<open>for\<close> loop whose body can end the program.\<close>

fun for_each :: "nat list \<Rightarrow> (nat \<Rightarrow> 's \<Rightarrow> error + 's) \<Rightarrow> 's \<Rightarrow> error + 's" where
  "for_each [] f s = Inr s"
| "for_each (i # is) f s = (case f i s of Inl e \<Rightarrow> Inl e | Inr s' \<Rightarrow> for_each is f s')"

text \<open>
  Modelled from the spec: \<^verbatim>\<open>SimPort\<close> (simobject.h is not among the sources). A port
  read by a unit is the list of the items visible at the current cycle, head first
  (\<^verbatim>\<open>empty\<close>, \<^verbatim>\<open>front\<close>, \<^verbatim>\<open>pop\<close>); a port written by a unit is the list of its pushes,
  each with the delay it was pushed with, in push order.
\<close>

type_synonym 'a in_port = "'a list"
type_synonym 'a out_port = "('a \<times> nat) list"

definition port_push :: "'a \<Rightarrow> nat \<Rightarrow> 'a out_port \<Rightarrow> 'a out_port" where
  "port_push x delay p = p @ [(x, delay)]"

text \<open>\<^verbatim>\<open>ports.at(i).push(x, delay)\<close> on a vector of ports.\<close>

definition push_at :: "'a out_port list \<Rightarrow> nat \<Rightarrow> 'a \<Rightarrow> nat \<Rightarrow> error + 'a out_port list" where
  "push_at ports i x delay =
     (if i < length ports then Inr (ports[i := port_push x delay (ports ! i)]) else Inl OutOfRange)"

section \<open>Enumerations of types.h\<close>

text \<open>
  An \<^verbatim>\<open>enum class\<close> can hold a value that is none of its enumerators; the \<open>_invalid\<close>
  constructor stands for those, which is what the \<^verbatim>\<open>default\<close> arms of the units catch.
\<close>

datatype AluType = ARITH | BRANCH | SYSCALL | IMUL | IDIV | AluType_invalid nat

datatype LsuType = LOAD | STORE | FENCE

datatype SfuType = TMC | WSPAWN | SPLIT | JOIN | BAR | PRED | CSRRW | CSRRS | CSRRC
  | TEX | RASTER | OM | CMOV | SfuType_invalid nat

datatype ArbiterType = Priority | RoundRobin

section \<open>Traces\<close>

text \<open>
  Modelled from the spec: the trace record (instr_trace.h is not among the sources),
  with the fields the units read. \<open>data\<close> is the payload that the units downcast with
  \<^verbatim>\<open>dynamic_pointer_cast\<close>; \<open>log_once_latch\<close> is the field \<^verbatim>\<open>log_once_\<close> behind \<^verbatim>\<open>log_once\<close>.
\<close>

record mem_addr_size_t =
  addr :: "64 word"
  size_bytes :: "32 word"

datatype TraceData =
    NoData
  | LsuTraceData "mem_addr_size_t list"
  | SFUTraceData nat nat
  | RasterTraceData nat
  | TexTraceData nat
  | OMTraceData nat

record Trace =
  uuid :: nat
  cid :: nat
  wid :: nat
  pid :: nat
  tmask :: "32 word"
  eop :: bool
  fetch_stall :: bool
  alu_type :: AluType
  lsu_type :: LsuType
  sfu_type :: SfuType
  data :: TraceData
  log_once_latch :: bool

text \<open>
  Modelled from the spec: \<^verbatim>\<open>Trace::log_once(enable)\<close>, the debounce latch: it stores
  \<open>enable\<close> and returns the value the latch held before.
\<close>

definition log_once :: "Trace \<Rightarrow> bool \<Rightarrow> bool \<times> Trace" where
  "log_once t enable = (log_once_latch t, t\<lparr>log_once_latch := enable\<rparr>)"

section \<open>Configuration constants\<close>

text \<open>The compile-time constants of VX_config.h, which is not among the sources.\<close>

record Config =
  ISSUE_WIDTH :: nat
  NUM_LSU_BLOCKS :: nat
  NUM_LSU_LANES :: nat
  XLEN :: nat
  LATENCY_IMUL :: nat

section \<open>The warp scheduler's callbacks\<close>

text \<open>
  \<^verbatim>\<open>core_->resume\<close>, \<^verbatim>\<open>core_->wspawn\<close> and \<^verbatim>\<open>core_->barrier\<close> belong to the core, which is
  not among the sources. A unit records each invocation in \<open>calls\<close>; what \<^verbatim>\<open>wspawn\<close>
  and \<^verbatim>\<open>barrier\<close> return is a parameter, a function of the invocations so far and
  of the arguments.
\<close>

datatype core_call = Resume nat | Wspawn nat nat | Barrier nat nat nat

record Callbacks =
  wspawn_ret :: "core_call list \<Rightarrow> nat \<Rightarrow> nat \<Rightarrow> bool"
  barrier_ret :: "core_call list \<Rightarrow> nat \<Rightarrow> nat \<Rightarrow> nat \<Rightarrow> bool"

section \<open>Functional units: func_unit.cpp\<close>

record FuncUnit =
  Inputs :: "Trace in_port list"
  Outputs :: "Trace out_port list"

subsection \<open>AluUnit\<close>

record AluUnit = FuncUnit +
  alu_calls :: "core_call list"

text \<open>The body of the loop of \<^verbatim>\<open>AluUnit::tick\<close>, for issue lane \<open>iw\<close>.\<close>

definition AluUnit_lane :: "Config \<Rightarrow> nat \<Rightarrow> AluUnit \<Rightarrow> error + AluUnit" where
  "AluUnit_lane cfg iw s =
     bindE (at_vec (Inputs s) iw) (\<lambda>input.
       case input of
         [] \<Rightarrow> Inr s
       | trace # rest \<Rightarrow>
           bindE (at_vec (Outputs s) iw) (\<lambda>output.
             let delay = 2 in
             bindE (case alu_type trace of
                      ARITH \<Rightarrow> Inr (port_push trace (2 + delay) output)
                    | BRANCH \<Rightarrow> Inr (port_push trace (2 + delay) output)
                    | SYSCALL \<Rightarrow> Inr (port_push trace (2 + delay) output)
                    | IMUL \<Rightarrow> Inr (port_push trace (LATENCY_IMUL cfg + delay) output)
                    | IDIV \<Rightarrow> Inr (port_push trace (XLEN cfg + delay) output)
                    | AluType_invalid _ \<Rightarrow> Inl Abort) (\<lambda>output'.
               Inr (s\<lparr>Inputs := (Inputs s)[iw := rest],
                       Outputs := (Outputs s)[iw := output'],
                       alu_calls := (if eop trace \<and> fetch_stall trace
                                     then alu_calls s @ [Resume (wid trace)]
                                     else alu_calls s)\<rparr>))))"

definition AluUnit_tick :: "Config \<Rightarrow> AluUnit \<Rightarrow> error + AluUnit" where
  "AluUnit_tick cfg s = for_each [0..<ISSUE_WIDTH cfg] (AluUnit_lane cfg) s"

text \<open>
  The delay each arm of the \<^verbatim>\<open>switch\<close> of \<^verbatim>\<open>AluUnit::tick\<close> pushes with, and the heads
  that reach its \<^verbatim>\<open>default\<close> arm.
\<close>

definition alu_push_delay :: "Config \<Rightarrow> AluType \<Rightarrow> nat" where
  "alu_push_delay cfg ty = (case ty of IMUL \<Rightarrow> LATENCY_IMUL cfg + 2 | IDIV \<Rightarrow> XLEN cfg + 2 | _ \<Rightarrow> 4)"

definition alu_head_invalid :: "AluUnit \<Rightarrow> nat \<Rightarrow> bool" where
  "alu_head_invalid s iw = (case Inputs s ! iw of [] \<Rightarrow> False
      | t # rest \<Rightarrow> (case alu_type t of AluType_invalid n \<Rightarrow> True | _ \<Rightarrow> False))"

definition alu_lane_post :: "Config \<Rightarrow> AluUnit \<Rightarrow> AluUnit \<Rightarrow> nat \<Rightarrow> bool" where
  "alu_lane_post cfg s s' iw =
     (case Inputs s ! iw of
        [] \<Rightarrow> Inputs s' ! iw = [] \<and> Outputs s' ! iw = Outputs s ! iw
      | t # rest \<Rightarrow> Inputs s' ! iw = rest \<and>
                     Outputs s' ! iw = Outputs s ! iw @ [(t, alu_push_delay cfg (alu_type t))])"

definition alu_loop_post :: "Config \<Rightarrow> nat \<Rightarrow> nat \<Rightarrow> AluUnit \<Rightarrow> AluUnit \<Rightarrow> bool" where
  "alu_loop_post cfg W n s s' \<longleftrightarrow>
     length (Inputs s') = W \<and> length (Outputs s') = W \<and>
     (\<forall>iw. n \<le> iw \<longrightarrow> Inputs s' ! iw = Inputs s ! iw \<and> Outputs s' ! iw = Outputs s ! iw) \<and>
     (\<forall>iw<n. alu_lane_post cfg s s' iw)"

subsection \<open>SfuUnit\<close>

text \<open>
  \<^verbatim>\<open>pending_rsps_\<close> points to the \<^verbatim>\<open>Output\<close> ports of the raster, texture and OM units,
  in that order: \<open>pending_rsps\<close> is the list of those ports (read by the SFU). The
  \<^verbatim>\<open>Input\<close> ports of the three kinds of unit (written by the SFU) are \<open>raster_units\<close>,
  \<open>tex_units\<close> and \<open>om_units\<close>. \<open>core_id\<close> is \<^verbatim>\<open>core_->id()\<close>.
\<close>

record SfuUnit = FuncUnit +
  sfu_calls :: "core_call list"
  core_id :: nat
  pending_rsps :: "Trace in_port list"
  raster_units :: "Trace out_port list"
  tex_units :: "Trace out_port list"
  om_units :: "Trace out_port list"

text \<open>The body of the first loop of \<^verbatim>\<open>SfuUnit::tick\<close>, for the \<open>k\<close>-th pending port.\<close>

definition sfu_pending_rsp :: "Config \<Rightarrow> nat \<Rightarrow> SfuUnit \<Rightarrow> error + SfuUnit" where
  "sfu_pending_rsp cfg k s =
     bindE (at_vec (pending_rsps s) k) (\<lambda>pending_rsp.
       case pending_rsp of
         [] \<Rightarrow> Inr s
       | trace # rest \<Rightarrow>
           if cid trace \<noteq> core_id s then Inr s
           else if ISSUE_WIDTH cfg = 0 then Inl DivByZero
           else
             bindE (push_at (Outputs s) (wid trace mod ISSUE_WIDTH cfg) trace 1) (\<lambda>outs.
               Inr (s\<lparr>Outputs := outs, pending_rsps := (pending_rsps s)[k := rest]\<rparr>)))"

text \<open>
  The \<^verbatim>\<open>switch\<close> of the second loop: the ports after the push of the arm, the calls
  made so far, and \<^verbatim>\<open>release_warp\<close>. The payload is dereferenced only where the source
  does, and a failed downcast is a null pointer there.
\<close>

definition sfu_dispatch ::
  "Callbacks \<Rightarrow> nat \<Rightarrow> Trace \<Rightarrow> SfuUnit \<Rightarrow> error + (SfuUnit \<times> bool)" where
  "sfu_dispatch cb iw trace s =
     (let release_warp = fetch_stall trace; delay = 2 in
      case sfu_type trace of
        WSPAWN \<Rightarrow>
          bindE (push_at (Outputs s) iw trace (2 + delay)) (\<lambda>outs.
            if eop trace then
              (case data trace of
                 SFUTraceData arg1 arg2 \<Rightarrow>
                   Inr (s\<lparr>Outputs := outs, sfu_calls := sfu_calls s @ [Wspawn arg1 arg2]\<rparr>,
                        wspawn_ret cb (sfu_calls s) arg1 arg2)
               | _ \<Rightarrow> Inl NullDeref)
            else Inr (s\<lparr>Outputs := outs\<rparr>, release_warp))
      | TMC \<Rightarrow> bindE (push_at (Outputs s) iw trace (2 + delay)) (\<lambda>outs.
                 Inr (s\<lparr>Outputs := outs\<rparr>, release_warp))
      | SPLIT \<Rightarrow> bindE (push_at (Outputs s) iw trace (2 + delay)) (\<lambda>outs.
                 Inr (s\<lparr>Outputs := outs\<rparr>, release_warp))
      | JOIN \<Rightarrow> bindE (push_at (Outputs s) iw trace (2 + delay)) (\<lambda>outs.
                 Inr (s\<lparr>Outputs := outs\<rparr>, release_warp))
      | PRED \<Rightarrow> bindE (push_at (Outputs s) iw trace (2 + delay)) (\<lambda>outs.
                 Inr (s\<lparr>Outputs := outs\<rparr>, release_warp))
      | CSRRW \<Rightarrow> bindE (push_at (Outputs s) iw trace (2 + delay)) (\<lambda>outs.
                 Inr (s\<lparr>Outputs := outs\<rparr>, release_warp))
      | CSRRS \<Rightarrow> bindE (push_at (Outputs s) iw trace (2 + delay)) (\<lambda>outs.
                 Inr (s\<lparr>Outputs := outs\<rparr>, release_warp))
      | CSRRC \<Rightarrow> bindE (push_at (Outputs s) iw trace (2 + delay)) (\<lambda>outs.
                 Inr (s\<lparr>Outputs := outs\<rparr>, release_warp))
      | BAR \<Rightarrow>
          bindE (push_at (Outputs s) iw trace (2 + delay)) (\<lambda>outs.
            if eop trace then
              (case data trace of
                 SFUTraceData arg1 arg2 \<Rightarrow>
                   Inr (s\<lparr>Outputs := outs,
                          sfu_calls := sfu_calls s @ [Barrier arg1 arg2 (wid trace)]\<rparr>,
                        barrier_ret cb (sfu_calls s) arg1 arg2 (wid trace))
               | _ \<Rightarrow> Inl NullDeref)
            else Inr (s\<lparr>Outputs := outs\<rparr>, release_warp))
      | RASTER \<Rightarrow>
          (case data trace of
             RasterTraceData raster_idx \<Rightarrow>
               bindE (push_at (raster_units s) raster_idx trace delay) (\<lambda>units.
                 Inr (s\<lparr>raster_units := units\<rparr>, release_warp))
           | _ \<Rightarrow> Inl NullDeref)
      | OM \<Rightarrow>
          (case data trace of
             OMTraceData om_idx \<Rightarrow>
               bindE (push_at (om_units s) om_idx trace delay) (\<lambda>units.
                 Inr (s\<lparr>om_units := units\<rparr>, release_warp))
           | _ \<Rightarrow> Inl NullDeref)
      | TEX \<Rightarrow>
          (case data trace of
             TexTraceData tex_idx \<Rightarrow>
               bindE (push_at (tex_units s) tex_idx trace delay) (\<lambda>units.
                 Inr (s\<lparr>tex_units := units\<rparr>, release_warp))
           | _ \<Rightarrow> Inl NullDeref)
      | CMOV \<Rightarrow> Inl Abort
      | SfuType_invalid _ \<Rightarrow> Inl Abort)"

text \<open>The body of the second loop of \<^verbatim>\<open>SfuUnit::tick\<close>, for issue lane \<open>iw\<close>.\<close>

definition sfu_lane :: "Callbacks \<Rightarrow> nat \<Rightarrow> SfuUnit \<Rightarrow> error + SfuUnit" where
  "sfu_lane cb iw s =
     bindE (at_vec (Inputs s) iw) (\<lambda>input.
       case input of
         [] \<Rightarrow> Inr s
       | trace # rest \<Rightarrow>
           if length (Outputs s) \<le> iw then Inl OutOfRange
           else
             bindE (sfu_dispatch cb iw trace s) (\<lambda>(s1, release_warp).
               Inr (s1\<lparr>Inputs := (Inputs s1)[iw := rest],
                       sfu_calls := (if eop trace \<and> release_warp
                                     then sfu_calls s1 @ [Resume (wid trace)]
                                     else sfu_calls s1)\<rparr>)))"

definition SfuUnit_tick :: "Config \<Rightarrow> Callbacks \<Rightarrow> SfuUnit \<Rightarrow> error + SfuUnit" where
  "SfuUnit_tick cfg cb s =
     bindE (for_each [0..<length (pending_rsps s)] (sfu_pending_rsp cfg) s)
       (for_each [0..<ISSUE_WIDTH cfg] (sfu_lane cb))"

section \<open>Packets and the pending table: types.h\<close>

text \<open>
  Modelled from the spec: \<^verbatim>\<open>BitVector<>\<close> (bitvector.h is not among the sources), the
  lane mask \<^verbatim>\<open>bitvec[L]\<close> of requests and responses, one boolean per lane.
  \<open>bv_and_not a b\<close> is \<^verbatim>\<open>a &= ~b\<close> on masks of the same width.
\<close>

type_synonym BitVector = "bool list"

definition bv_new :: "nat \<Rightarrow> BitVector" where
  "bv_new n = replicate n False"

definition bv_set :: "BitVector \<Rightarrow> nat \<Rightarrow> BitVector" where
  "bv_set m i = m[i := True]"

definition bv_none :: "BitVector \<Rightarrow> bool" where
  "bv_none m \<longleftrightarrow> True \<notin> set m"

definition bv_count :: "BitVector \<Rightarrow> nat" where
  "bv_count m = length (filter id m)"

definition bv_and_not :: "BitVector \<Rightarrow> BitVector \<Rightarrow> BitVector" where
  "bv_and_not a b = map2 (\<lambda>x y. x \<and> \<not> y) a b"

record LsuReq =
  req_mask :: BitVector
  req_addrs :: "64 word list"
  req_write :: bool
  req_tag :: "32 word"
  req_cid :: nat
  req_uuid :: nat

definition LsuReq_new :: "nat \<Rightarrow> LsuReq" where
  "LsuReq_new n = \<lparr>req_mask = bv_new n, req_addrs = replicate n 0, req_write = False,
                    req_tag = 0, req_cid = 0, req_uuid = 0\<rparr>"

record LsuRsp =
  rsp_mask :: BitVector
  rsp_tag :: "64 word"
  rsp_cid :: nat
  rsp_uuid :: nat

subsection \<open>HashTable\<close>

text \<open>
  \<^verbatim>\<open>entries_\<close> is the vector of (allocated, value) pairs and \<^verbatim>\<open>size_\<close> the
  \<^verbatim>\<open>uint32_t\<close> counter. The capacity is a \<^verbatim>\<open>uint32_t\<close>, so indices are below \<open>2 ^ 32\<close>
  and are kept as naturals.
\<close>

record 'a HashTable =
  entries :: "(bool \<times> 'a) list"
  ht_size :: "32 word"

definition ht_empty :: "'a HashTable \<Rightarrow> bool" where
  "ht_empty h \<longleftrightarrow> 0 = ht_size h"

definition ht_full :: "'a HashTable \<Rightarrow> bool" where
  "ht_full h \<longleftrightarrow> unat (ht_size h) = length (entries h)"

definition ht_contains :: "'a HashTable \<Rightarrow> nat \<Rightarrow> error + bool" where
  "ht_contains h index = bindE (at_vec (entries h) index) (\<lambda>entry. Inr (fst entry))"

definition ht_at :: "'a HashTable \<Rightarrow> nat \<Rightarrow> error + 'a" where
  "ht_at h index =
     bindE (at_vec (entries h) index) (\<lambda>entry.
       if fst entry then Inr (snd entry) else Inl (AssertFailed HT_at))"

text \<open>
  \<^verbatim>\<open>at\<close> returns a reference; \<open>ht_put\<close> is the write through that reference to the
  value of an allocated slot.
\<close>

definition ht_put :: "'a HashTable \<Rightarrow> nat \<Rightarrow> 'a \<Rightarrow> 'a HashTable" where
  "ht_put h index v = h\<lparr>entries := (entries h)[index := (True, v)]\<rparr>"

text \<open>The scan of \<^verbatim>\<open>allocate\<close>: the first index, counted from \<open>i\<close>, whose slot is free.\<close>

fun ht_scan :: "(bool \<times> 'a) list \<Rightarrow> nat \<Rightarrow> nat option" where
  "ht_scan [] i = None"
| "ht_scan (entry # es) i = (if \<not> fst entry then Some i else ht_scan es (Suc i))"

definition ht_allocate :: "'a HashTable \<Rightarrow> 'a \<Rightarrow> error + (nat \<times> 'a HashTable)" where
  "ht_allocate h v =
     (case ht_scan (entries h) 0 of
        Some i \<Rightarrow> Inr (i, h\<lparr>entries := (entries h)[i := (True, v)], ht_size := ht_size h + 1\<rparr>)
      | None \<Rightarrow> Inl (AssertFailed HT_allocate))"

definition ht_release :: "'a HashTable \<Rightarrow> nat \<Rightarrow> error + 'a HashTable" where
  "ht_release h index =
     bindE (at_vec (entries h) index) (\<lambda>entry.
       if fst entry
       then Inr (h\<lparr>entries := (entries h)[index := (False, snd entry)], ht_size := ht_size h - 1\<rparr>)
       else Inl (AssertFailed HT_release))"

definition ht_clear :: "'a HashTable \<Rightarrow> 'a HashTable" where
  "ht_clear h = h\<lparr>entries := map (\<lambda>entry. (False, snd entry)) (entries h), ht_size := 0\<rparr>"

subsection \<open>LsuUnit\<close>

text \<open>
  Modelled from the spec: the declarations of func_unit.h, which is not among the
  sources: the pending entry \<^verbatim>\<open>{trace, mask}\<close>, the per-block state
  \<^verbatim>\<open>{pending_rd_reqs, fence_trace, fence_lock}\<close> with its \<^verbatim>\<open>clear\<close>, and the counter
  \<^verbatim>\<open>pending_loads_\<close>. \<open>fence_trace\<close> is a pointer and \<open>None\<close> is the null pointer.
\<close>

record pending_req_t =
  entry_trace :: Trace
  entry_mask :: BitVector

record lsu_state_t =
  pending_rd_reqs :: "pending_req_t HashTable"
  fence_trace :: "Trace option"
  fence_lock :: bool

definition lsu_state_clear :: "lsu_state_t \<Rightarrow> lsu_state_t" where
  "lsu_state_clear st =
     st\<lparr>pending_rd_reqs := ht_clear (pending_rd_reqs st), fence_trace := None, fence_lock := False\<rparr>"

text \<open>
  The parts of the core that \<^verbatim>\<open>LsuUnit::tick\<close> touches: \<^verbatim>\<open>core_->perf_stats_\<close> and, per
  block, the ports \<^verbatim>\<open>core_->lsu_demux_.at(b)->ReqIn\<close> (written: the requests pushed, in
  order) and \<^verbatim>\<open>RspIn\<close> (read: the responses visible).
\<close>

record PerfStats =
  load_latency :: "64 word"
  loads :: "64 word"
  stores :: "64 word"

record LocalMemDemux =
  demux_ReqIn :: "LsuReq list"
  demux_RspIn :: "LsuRsp in_port"

text \<open>The message of \<^verbatim>\<open>DT(4, ... "-queue-full: " ...)\<close>, with the trace it prints.\<close>

datatype lsu_diag = Queue_full Trace

record LsuUnit = FuncUnit +
  states :: "lsu_state_t list"
  pending_loads :: "64 word"
  perf_stats :: PerfStats
  lsu_demux :: "LocalMemDemux list"
  lsu_log :: "lsu_diag list"

definition LsuUnit_reset :: "LsuUnit \<Rightarrow> LsuUnit" where
  "LsuUnit_reset s = s\<lparr>states := map lsu_state_clear (states s), pending_loads := 0\<rparr>"

text \<open>
  Lines 124 to 133 of \<^verbatim>\<open>LsuUnit::tick\<close>: the response \<open>lsu_rsp\<close> is matched against the
  pending entry of its tag (the \<^verbatim>\<open>uint64_t\<close> tag narrows to the \<^verbatim>\<open>uint32_t\<close> index of
  \<^verbatim>\<open>HashTable::at\<close>), the answered lanes are cleared, and a completed entry pushes its
  trace and releases its slot.
\<close>

definition lsu_rsp_index :: "LsuRsp \<Rightarrow> nat" where
  "lsu_rsp_index lsu_rsp = unat (ucast (rsp_tag lsu_rsp) :: 32 word)"

definition lsu_absorb ::
  "Config \<Rightarrow> LsuRsp \<Rightarrow> lsu_state_t \<Rightarrow> Trace out_port list
     \<Rightarrow> error + (lsu_state_t \<times> Trace out_port list)" where
  "lsu_absorb cfg lsu_rsp state outs =
     bindE (ht_at (pending_rd_reqs state) (lsu_rsp_index lsu_rsp)) (\<lambda>entry.
       let trace = entry_trace entry in
       if bv_none (entry_mask entry) then Inl (AssertFailed LSU_mask_none)
       else
         let mask' = bv_and_not (entry_mask entry) (rsp_mask lsu_rsp);
             table = ht_put (pending_rd_reqs state) (lsu_rsp_index lsu_rsp)
                       (entry\<lparr>entry_mask := mask'\<rparr>)
         in
           if bv_none mask' then
             (if ISSUE_WIDTH cfg = 0 then Inl DivByZero
              else
                bindE (push_at outs (wid trace mod ISSUE_WIDTH cfg) trace 1) (\<lambda>outs'.
                  bindE (ht_release table (lsu_rsp_index lsu_rsp)) (\<lambda>table'.
                    Inr (state\<lparr>pending_rd_reqs := table'\<rparr>, outs'))))
           else Inr (state\<lparr>pending_rd_reqs := table\<rparr>, outs))"

text \<open>The body of the first loop of \<^verbatim>\<open>LsuUnit::tick\<close>, for block \<open>b\<close>.\<close>

definition lsu_rsp_block :: "Config \<Rightarrow> nat \<Rightarrow> LsuUnit \<Rightarrow> error + LsuUnit" where
  "lsu_rsp_block cfg b s =
     bindE (at_vec (lsu_demux s) b) (\<lambda>demux.
       case demux_RspIn demux of
         [] \<Rightarrow> Inr s
       | lsu_rsp # rsps \<Rightarrow>
           bindE (at_vec (states s) b) (\<lambda>state.
             bindE (lsu_absorb cfg lsu_rsp state (Outputs s)) (\<lambda>(state', outs').
               Inr (s\<lparr>Outputs := outs',
                       states := (states s)[b := state'],
                       pending_loads := pending_loads s - of_nat (bv_count (rsp_mask lsu_rsp)),
                       lsu_demux := (lsu_demux s)[b := demux\<lparr>demux_RspIn := rsps\<rparr>]\<rparr>))))"

text \<open>
  Lines 181 to 192: the request's mask and addresses, lane by lane. \<^verbatim>\<open>tmask\<close> is a
  \<^verbatim>\<open>std::bitset<32>\<close>, whose \<^verbatim>\<open>test\<close> throws from position 32 on; the payload is only
  dereferenced for an active lane.
\<close>

fun lsu_req_lanes :: "nat list \<Rightarrow> Trace \<Rightarrow> nat \<Rightarrow> LsuReq \<Rightarrow> error + LsuReq" where
  "lsu_req_lanes [] trace t0 lsu_req = Inr lsu_req"
| "lsu_req_lanes (i # is) trace t0 lsu_req =
     (if 32 \<le> t0 + i then Inl OutOfRange
      else if bit (tmask trace) (t0 + i) then
        (case data trace of
           LsuTraceData mem_addrs \<Rightarrow>
             (if i < length (req_addrs lsu_req) then
                bindE (at_vec mem_addrs (t0 + i)) (\<lambda>a.
                  lsu_req_lanes is trace t0
                    (lsu_req\<lparr>req_mask := bv_set (req_mask lsu_req) i,
                             req_addrs := (req_addrs lsu_req)[i := addr a]\<rparr>))
              else Inl OutOfRange)
         | _ \<Rightarrow> Inl NullDeref)
      else lsu_req_lanes is trace t0 lsu_req)"

definition lsu_build_req :: "Config \<Rightarrow> Trace \<Rightarrow> bool \<Rightarrow> error + LsuReq" where
  "lsu_build_req cfg trace is_write =
     lsu_req_lanes [0..<NUM_LSU_LANES cfg] trace (pid trace * NUM_LSU_LANES cfg)
       ((LsuReq_new (NUM_LSU_LANES cfg))\<lparr>req_write := is_write\<rparr>)"

text \<open>
  Lines 142 to 149: a locked block either skips the lane (\<open>None\<close>, the \<^verbatim>\<open>continue\<close>) or
  pushes the latched fence on lane \<open>iw\<close> and unlocks. A set lock with a null
  \<open>fence_trace\<close> cannot arise, the lock being set only together with the latch; the
  model ends the run there.
\<close>

definition lsu_fence_unlock :: "nat \<Rightarrow> nat \<Rightarrow> LsuUnit \<Rightarrow> error + LsuUnit option" where
  "lsu_fence_unlock iw block_idx s =
     bindE (at_vec (states s) block_idx) (\<lambda>state.
       if fence_lock state then
         (if \<not> ht_empty (pending_rd_reqs state) then Inr None
          else
            (case fence_trace state of
               None \<Rightarrow> Inl NullDeref
             | Some ft \<Rightarrow>
                 bindE (push_at (Outputs s) iw ft 1) (\<lambda>outs.
                   Inr (Some (s\<lparr>Outputs := outs,
                                 states := (states s)[block_idx := state\<lparr>fence_lock := False\<rparr>]\<rparr>)))))
       else Inr (Some s))"

text \<open>Lines 151 to 221: the head of the lane's input queue.\<close>

definition lsu_issue_input :: "Config \<Rightarrow> nat \<Rightarrow> nat \<Rightarrow> LsuUnit \<Rightarrow> error + LsuUnit" where
  "lsu_issue_input cfg iw block_idx s =
     bindE (at_vec (states s) block_idx) (\<lambda>state.
     bindE (at_vec (Inputs s) iw) (\<lambda>input.
       case input of
         [] \<Rightarrow> Inr s
       | trace # rest \<Rightarrow>
           if lsu_type trace = FENCE then
             Inr (s\<lparr>Inputs := (Inputs s)[iw := rest],
                     states := (states s)[block_idx :=
                        state\<lparr>fence_trace := Some trace, fence_lock := True\<rparr>]\<rparr>)
           else
             let is_write = (lsu_type trace = STORE) in
             if \<not> is_write \<and> ht_full (pending_rd_reqs state) then
               (let (was_set, trace') = log_once trace True in
                Inr (s\<lparr>Inputs := (Inputs s)[iw := trace' # rest],
                        lsu_log := (if \<not> was_set then lsu_log s @ [Queue_full trace']
                                    else lsu_log s)\<rparr>))
             else
               (let (was_set, trace') = log_once trace False in
                bindE (lsu_build_req cfg trace' is_write) (\<lambda>lsu_req0.
                bindE (if \<not> is_write
                       then ht_allocate (pending_rd_reqs state)
                              \<lparr>entry_trace = trace', entry_mask = req_mask lsu_req0\<rparr>
                       else Inr (0, pending_rd_reqs state)) (\<lambda>(tag, table).
                  let lsu_req = lsu_req0\<lparr>req_tag := of_nat tag, req_cid := cid trace',
                                          req_uuid := uuid trace'\<rparr>
                  in
                  bindE (at_vec (lsu_demux s) block_idx) (\<lambda>demux.
                    let num_addrs = bv_count (req_mask lsu_req) in
                    bindE (if is_write then push_at (Outputs s) iw trace' 1
                           else Inr (Outputs s)) (\<lambda>outs.
                      Inr (s\<lparr>Inputs := (Inputs s)[iw := rest],
                              Outputs := outs,
                              states := (states s)[block_idx := state\<lparr>pending_rd_reqs := table\<rparr>],
                              pending_loads := (if is_write then pending_loads s
                                                else pending_loads s + of_nat num_addrs),
                              perf_stats :=
                                (if is_write
                                 then (perf_stats s)\<lparr>stores := stores (perf_stats s) + of_nat num_addrs\<rparr>
                                 else (perf_stats s)\<lparr>loads := loads (perf_stats s) + of_nat num_addrs\<rparr>),
                              lsu_demux := (lsu_demux s)[block_idx :=
                                 demux\<lparr>demux_ReqIn := demux_ReqIn demux @ [lsu_req]\<rparr>]\<rparr>))))))))"

text \<open>The body of the second loop of \<^verbatim>\<open>LsuUnit::tick\<close>, for issue lane \<open>iw\<close>.\<close>

definition lsu_issue_lane :: "Config \<Rightarrow> nat \<Rightarrow> LsuUnit \<Rightarrow> error + LsuUnit" where
  "lsu_issue_lane cfg iw s =
     (if NUM_LSU_BLOCKS cfg = 0 then Inl DivByZero
      else
        let block_idx = iw mod NUM_LSU_BLOCKS cfg in
        bindE (lsu_fence_unlock iw block_idx s) (\<lambda>r.
          case r of
            None \<Rightarrow> Inr s
          | Some s1 \<Rightarrow> lsu_issue_input cfg iw block_idx s1))"

text \<open>
  The state a load, respectively a store, leaves behind once its request \<open>lsu_req0\<close>
  is built (and, for the load, the slot \<open>tag\<close> is allocated, giving \<open>table\<close>): the
  assignments of lines 193 to 220, collected.
\<close>

definition lsu_issued_load ::
  "LsuUnit \<Rightarrow> nat \<Rightarrow> nat \<Rightarrow> Trace \<Rightarrow> Trace list \<Rightarrow> LsuReq \<Rightarrow> nat
     \<Rightarrow> pending_req_t HashTable \<Rightarrow> LsuUnit" where
  "lsu_issued_load s iw b trace rest lsu_req0 tag table =
     s\<lparr>Inputs := (Inputs s)[iw := rest],
       states := (states s)[b := (states s ! b)\<lparr>pending_rd_reqs := table\<rparr>],
       pending_loads := pending_loads s + of_nat (bv_count (req_mask lsu_req0)),
       perf_stats := (perf_stats s)\<lparr>loads := loads (perf_stats s) + of_nat (bv_count (req_mask lsu_req0))\<rparr>,
       lsu_demux := (lsu_demux s)[b := (lsu_demux s ! b)\<lparr>demux_ReqIn := demux_ReqIn (lsu_demux s ! b) @
          [lsu_req0\<lparr>req_tag := of_nat tag, req_cid := cid trace, req_uuid := uuid trace\<rparr>]\<rparr>]\<rparr>"

definition lsu_issued_store ::
  "LsuUnit \<Rightarrow> nat \<Rightarrow> nat \<Rightarrow> Trace \<Rightarrow> Trace list \<Rightarrow> LsuReq \<Rightarrow> LsuUnit" where
  "lsu_issued_store s iw b trace rest lsu_req0 =
     s\<lparr>Inputs := (Inputs s)[iw := rest],
       Outputs := (Outputs s)[iw := Outputs s ! iw @ [(trace\<lparr>log_once_latch := False\<rparr>, 1)]],
       perf_stats := (perf_stats s)\<lparr>stores := stores (perf_stats s) + of_nat (bv_count (req_mask lsu_req0))\<rparr>,
       lsu_demux := (lsu_demux s)[b := (lsu_demux s ! b)\<lparr>demux_ReqIn := demux_ReqIn (lsu_demux s ! b) @
          [lsu_req0\<lparr>req_tag := 0, req_cid := cid trace, req_uuid := uuid trace\<rparr>]\<rparr>]\<rparr>"

text \<open>
  \<open>lsu_frame iw b s s'\<close>: from \<open>s\<close> to \<open>s'\<close> only lane \<open>iw\<close> and block \<open>b\<close> may have
  changed. \<open>lsu_bank_untouched cfg b s s'\<close>: the state of block \<open>b\<close>, its request and
  response ports and the input and output queues of all its lanes are the same in
  \<open>s'\<close> as in \<open>s\<close>.
\<close>

definition lsu_frame :: "nat \<Rightarrow> nat \<Rightarrow> LsuUnit \<Rightarrow> LsuUnit \<Rightarrow> bool" where
  "lsu_frame iw b s s' \<longleftrightarrow>
     length (states s') = length (states s) \<and>
     (\<forall>b'. b' \<noteq> b \<longrightarrow> states s' ! b' = states s ! b' \<and> lsu_demux s' ! b' = lsu_demux s ! b') \<and>
     (\<forall>j. j \<noteq> iw \<longrightarrow> Inputs s' ! j = Inputs s ! j \<and> Outputs s' ! j = Outputs s ! j)"

definition lsu_bank_untouched :: "Config \<Rightarrow> nat \<Rightarrow> LsuUnit \<Rightarrow> LsuUnit \<Rightarrow> bool" where
  "lsu_bank_untouched cfg b s s' \<longleftrightarrow>
     length (states s') = length (states s) \<and>
     states s' ! b = states s ! b \<and> lsu_demux s' ! b = lsu_demux s ! b \<and>
     (\<forall>iw. iw mod NUM_LSU_BLOCKS cfg = b \<longrightarrow>
        Inputs s' ! iw = Inputs s ! iw \<and> Outputs s' ! iw = Outputs s ! iw)"

text \<open>
  The invariant of \<^verbatim>\<open>HashTable\<close>: \<^verbatim>\<open>size_\<close> counts the allocated slots, and the capacity
  fits the \<^verbatim>\<open>uint32_t\<close> it was given as.
\<close>

definition ht_wf :: "'a HashTable \<Rightarrow> bool" where
  "ht_wf h \<longleftrightarrow> unat (ht_size h) = length (filter fst (entries h)) \<and> length (entries h) < 2 ^ 32"

definition lsu_wf :: "LsuUnit \<Rightarrow> bool" where
  "lsu_wf s \<longleftrightarrow> list_all (\<lambda>st. ht_wf (pending_rd_reqs st)) (states s)"

definition lsu_rsp_loop :: "Config \<Rightarrow> LsuUnit \<Rightarrow> error + LsuUnit" where
  "lsu_rsp_loop cfg s = for_each [0..<NUM_LSU_BLOCKS cfg] (lsu_rsp_block cfg) s"

definition lsu_issue_loop :: "Config \<Rightarrow> LsuUnit \<Rightarrow> error + LsuUnit" where
  "lsu_issue_loop cfg s = for_each [0..<ISSUE_WIDTH cfg] (lsu_issue_lane cfg) s"

definition LsuUnit_tick :: "Config \<Rightarrow> LsuUnit \<Rightarrow> error + LsuUnit" where
  "LsuUnit_tick cfg s =
     bindE (lsu_rsp_loop cfg
              (s\<lparr>perf_stats := (perf_stats s)\<lparr>load_latency :=
                    load_latency (perf_stats s) + pending_loads s\<rparr>\<rparr>))
       (lsu_issue_loop cfg)"

section \<open>Arbiters: types.h\<close>

subsection \<open>Mux\<close>

text \<open>
  The fields \<^verbatim>\<open>Inputs\<close>, \<^verbatim>\<open>Outputs\<close>, \<^verbatim>\<open>type_\<close>, \<^verbatim>\<open>delay_\<close>, \<^verbatim>\<open>cursors_\<close> and \<^verbatim>\<open>num_reqs_\<close>.
  The constructor asserts at most 32 inputs and outputs, so the \<^verbatim>\<open>uint32_t\<close> indices and
  cursors never wrap and are kept as naturals; \<open>AND\<close> is the bitwise \<^verbatim>\<open>&\<close>.
\<close>

record 'a Mux =
  mux_Inputs :: "'a in_port list"
  mux_Outputs :: "'a out_port list"
  mux_type :: ArbiterType
  mux_delay :: nat
  mux_cursors :: "nat list"
  mux_num_reqs :: nat

text \<open>
  The constructor without its bypass binding (with as many inputs as outputs the ports
  are bound to each other, and \<^verbatim>\<open>tick\<close> does nothing).
\<close>

definition Mux_new :: "ArbiterType \<Rightarrow> nat \<Rightarrow> nat \<Rightarrow> nat \<Rightarrow> error + 'a Mux" where
  "Mux_new type num_inputs num_outputs delay =
     (if num_outputs = 0 then Inl DivByZero
      else if delay = 0 \<or> 32 < num_inputs \<or> 32 < num_outputs \<or> num_inputs < num_outputs
      then Inl Abort
      else Inr \<lparr>mux_Inputs = replicate num_inputs [], mux_Outputs = replicate num_outputs [],
                 mux_type = type, mux_delay = delay, mux_cursors = replicate num_outputs 0,
                 mux_num_reqs = num_inputs div num_outputs\<rparr>)"

definition mux_update_cursor :: "nat \<Rightarrow> nat \<Rightarrow> 'a Mux \<Rightarrow> error + 'a Mux" where
  "mux_update_cursor index grant m =
     (if mux_type m = RoundRobin then
        (if index < length (mux_cursors m)
         then Inr (m\<lparr>mux_cursors := (mux_cursors m)[index := grant + 1]\<rparr>)
         else Inl OutOfRange)
      else Inr m)"

text \<open>The inner loop of \<^verbatim>\<open>Mux::tick\<close> for output \<open>out\<close>, over the remaining values of \<open>r\<close>.\<close>

fun mux_scan :: "nat list \<Rightarrow> nat \<Rightarrow> 'a Mux \<Rightarrow> error + 'a Mux" where
  "mux_scan [] out m = Inr m"
| "mux_scan (r # rs) out m =
     bindE (at_vec (mux_cursors m) out) (\<lambda>cursor.
       let i = (cursor + r) AND (mux_num_reqs m - 1);
           j = out * mux_num_reqs m + i
       in
         if length (mux_Inputs m) \<le> j then mux_scan rs out m
         else
           (case mux_Inputs m ! j of
              [] \<Rightarrow> mux_scan rs out m
            | req # rest \<Rightarrow>
                bindE (push_at (mux_Outputs m) out req (mux_delay m)) (\<lambda>outs.
                  mux_update_cursor out i
                    (m\<lparr>mux_Outputs := outs, mux_Inputs := (mux_Inputs m)[j := rest]\<rparr>))))"

definition Mux_tick :: "'a Mux \<Rightarrow> error + 'a Mux" where
  "Mux_tick m =
     (if length (mux_Inputs m) = length (mux_Outputs m) then Inr m
      else for_each [0..<length (mux_Outputs m)] (mux_scan [0..<mux_num_reqs m]) m)"

text \<open>\<open>n\<close> ticks in a row.\<close>

fun mux_ticks :: "nat \<Rightarrow> 'a Mux \<Rightarrow> error + 'a Mux" where
  "mux_ticks 0 m = Inr m"
| "mux_ticks (Suc n) m = bindE (Mux_tick m) (mux_ticks n)"

text \<open>
  \<open>rr_grants R t i\<close>: how many of the ticks \<open>0, \<dots>, t - 1\<close> have \<open>t mod R = i\<close>.
  \<open>mux_after R m t mt\<close>: \<open>mt\<close> is \<open>m\<close> after \<open>t\<close> grants handed out in turn from input 0:
  input \<open>i\<close> has lost its first \<open>rr_grants R t i\<close> items, and the output has gained, for
  each tick \<open>s\<close> before \<open>t\<close>, the item that was then at the head of input \<open>s mod R\<close>.
\<close>

fun rr_grants :: "nat \<Rightarrow> nat \<Rightarrow> nat \<Rightarrow> nat" where
  "rr_grants R 0 i = 0"
| "rr_grants R (Suc t) i = rr_grants R t i + (if t mod R = i then 1 else 0)"

definition mux_after :: "nat \<Rightarrow> 'a Mux \<Rightarrow> nat \<Rightarrow> 'a Mux \<Rightarrow> bool" where
  "mux_after R m t mt \<longleftrightarrow>
     length (mux_Inputs mt) = R \<and> length (mux_Outputs mt) = 1 \<and> mux_num_reqs mt = R \<and>
     mux_type mt = mux_type m \<and> mux_delay mt = mux_delay m \<and>
     (\<forall>i<R. mux_Inputs mt ! i = drop (rr_grants R t i) (mux_Inputs m ! i)) \<and>
     mux_Outputs mt ! 0 = mux_Outputs m ! 0 @
       map (\<lambda>s. (mux_Inputs m ! (s mod R) ! rr_grants R s (s mod R), mux_delay m)) [0..<t] \<and>
     (\<exists>c. mux_cursors mt = [c] \<and> c mod R = t mod R)"

subsection \<open>Switch\<close>

datatype AddrType = Global | Shared | IO

record MemReq =
  mreq_addr :: "64 word"
  mreq_write :: bool
  mreq_type :: AddrType
  mreq_tag :: "32 word"
  mreq_cid :: nat
  mreq_uuid :: nat

record MemRsp =
  mrsp_tag :: "64 word"
  mrsp_cid :: nat
  mrsp_uuid :: nat

text \<open>
  \<^verbatim>\<open>MemSwitch = Switch<MemReq, MemRsp>\<close>, the instance the sources define: the tag of a
  request is a \<^verbatim>\<open>uint32_t\<close>, the tag of a response a \<^verbatim>\<open>uint64_t\<close>. \<open>lg_num_reqs\<close> is the
  field \<^verbatim>\<open>lg_num_reqs_\<close>, set by the constructor from \<^verbatim>\<open>log2ceil\<close> (util.h, not among the
  sources); \<^verbatim>\<open>R = 1 << lg_num_reqs_\<close>.
\<close>

record Switch =
  ReqIn :: "MemReq in_port list"
  RspIn :: "MemRsp out_port list"
  ReqOut :: "MemReq out_port list"
  RspOut :: "MemRsp in_port list"
  sw_type :: ArbiterType
  sw_delay :: nat
  sw_cursors :: "nat list"
  lg_num_reqs :: nat

text \<open>
  \<^verbatim>\<open>req.tag = (req.tag << lg_num_reqs_) | i\<close> in 32 bits, and
  \<^verbatim>\<open>i = rsp.tag & (R-1); rsp.tag >>= lg_num_reqs_\<close> in 64 bits, \<open>i\<close> narrowed to
  \<^verbatim>\<open>uint32_t\<close>.
\<close>

definition switch_encode :: "nat \<Rightarrow> 32 word \<Rightarrow> nat \<Rightarrow> 32 word" where
  "switch_encode lg tag i = push_bit lg tag OR of_nat i"

definition switch_decode :: "nat \<Rightarrow> 64 word \<Rightarrow> nat \<times> 64 word" where
  "switch_decode lg tag =
     (unat (ucast (tag AND of_nat (2 ^ lg - 1)) :: 32 word), drop_bit lg tag)"

definition sw_update_cursor :: "nat \<Rightarrow> nat \<Rightarrow> Switch \<Rightarrow> error + Switch" where
  "sw_update_cursor index grant sw =
     (if sw_type sw = RoundRobin then
        (if index < length (sw_cursors sw)
         then Inr (sw\<lparr>sw_cursors := (sw_cursors sw)[index := grant + 1]\<rparr>)
         else Inl OutOfRange)
      else Inr sw)"

text \<open>The response part of the loop of \<^verbatim>\<open>Switch::tick\<close>, for output \<open>out\<close>.\<close>

definition sw_rsp_step :: "nat \<Rightarrow> Switch \<Rightarrow> error + Switch" where
  "sw_rsp_step out sw =
     bindE (at_vec (RspOut sw) out) (\<lambda>rsp_out.
       case rsp_out of
         [] \<Rightarrow> Inr sw
       | rsp # rest \<Rightarrow>
           let (i, tag) = (if lg_num_reqs sw \<noteq> 0 then switch_decode (lg_num_reqs sw) (mrsp_tag rsp)
                           else (0, mrsp_tag rsp));
               j = out * 2 ^ lg_num_reqs sw + i
           in
             bindE (push_at (RspIn sw) j (rsp\<lparr>mrsp_tag := tag\<rparr>) 1) (\<lambda>ins.
               Inr (sw\<lparr>RspIn := ins, RspOut := (RspOut sw)[out := rest]\<rparr>)))"

text \<open>The request part, over the remaining values of \<open>r\<close>.\<close>

fun sw_req_scan :: "nat list \<Rightarrow> nat \<Rightarrow> Switch \<Rightarrow> error + Switch" where
  "sw_req_scan [] out sw = Inr sw"
| "sw_req_scan (r # rs) out sw =
     bindE (at_vec (sw_cursors sw) out) (\<lambda>cursor.
       let i = (cursor + r) AND (2 ^ lg_num_reqs sw - 1);
           j = out * 2 ^ lg_num_reqs sw + i
       in
         if length (ReqIn sw) \<le> j then sw_req_scan rs out sw
         else
           (case ReqIn sw ! j of
              [] \<Rightarrow> sw_req_scan rs out sw
            | req # rest \<Rightarrow>
                let req' = (if lg_num_reqs sw \<noteq> 0
                            then req\<lparr>mreq_tag := switch_encode (lg_num_reqs sw) (mreq_tag req) i\<rparr>
                            else req)
                in
                  bindE (push_at (ReqOut sw) out req' (sw_delay sw)) (\<lambda>outs.
                    sw_update_cursor out i
                      (sw\<lparr>ReqOut := outs, ReqIn := (ReqIn sw)[j := rest]\<rparr>))))"

definition sw_output :: "nat \<Rightarrow> Switch \<Rightarrow> error + Switch" where
  "sw_output out sw =
     bindE (sw_rsp_step out sw) (\<lambda>sw1. sw_req_scan [0..<2 ^ lg_num_reqs sw1] out sw1)"

definition Switch_tick :: "Switch \<Rightarrow> error + Switch" where
  "Switch_tick sw =
     (if length (ReqIn sw) = length (ReqOut sw) then Inr sw
      else for_each [0..<length (ReqOut sw)] sw_output sw)"

text \<open>
  \<open>sw_granted out i sw sw'\<close>: the request scan of output \<open>out\<close> granted input
  \<open>out * R + i\<close>: the head of that input left it and was pushed on \<^verbatim>\<open>ReqOut[out]\<close> with
  the encoded tag and the configured delay.
\<close>

definition sw_granted :: "nat \<Rightarrow> nat \<Rightarrow> Switch \<Rightarrow> Switch \<Rightarrow> bool" where
  "sw_granted out i sw sw' \<longleftrightarrow>
     i < 2 ^ lg_num_reqs sw \<and> out * 2 ^ lg_num_reqs sw + i < length (ReqIn sw) \<and>
     out < length (ReqOut sw) \<and>
     (case ReqIn sw ! (out * 2 ^ lg_num_reqs sw + i) of
        [] \<Rightarrow> False
      | req # rest \<Rightarrow>
          ReqIn sw' = (ReqIn sw)[out * 2 ^ lg_num_reqs sw + i := rest] \<and>
          ReqOut sw' = (ReqOut sw)[out := ReqOut sw ! out @
             [(req\<lparr>mreq_tag := switch_encode (lg_num_reqs sw) (mreq_tag req) i\<rparr>, sw_delay sw)]])"

subsection \<open>Outstanding lanes and runs of the LSU\<close>

text \<open>
  The number of lanes still awaited: over all blocks and all allocated slots, the
  number of bits set in the slot's remaining mask.
\<close>

definition slot_remaining :: "bool \<times> pending_req_t \<Rightarrow> nat" where
  "slot_remaining entry = (if fst entry then bv_count (entry_mask (snd entry)) else 0)"

definition bank_remaining :: "lsu_state_t \<Rightarrow> nat" where
  "bank_remaining st = sum_list (map slot_remaining (entries (pending_rd_reqs st)))"

definition total_remaining :: "LsuUnit \<Rightarrow> nat" where
  "total_remaining s = sum_list (map bank_remaining (states s))"

text \<open>
  \<open>bv_subset a b\<close>: masks of the same width, every lane of \<open>a\<close> is a lane of \<open>b\<close>.
  \<open>lsu_rsp_ok\<close>: the response at the head of each block's \<^verbatim>\<open>RspIn\<close>, if its tag names an
  allocated slot, answers only lanes that the slot still awaits.
\<close>

definition bv_subset :: "BitVector \<Rightarrow> BitVector \<Rightarrow> bool" where
  "bv_subset a b \<longleftrightarrow> list_all2 (\<lambda>x y. x \<longrightarrow> y) a b"

definition lsu_rsp_ok_bank :: "LsuUnit \<Rightarrow> nat \<Rightarrow> bool" where
  "lsu_rsp_ok_bank s b =
     (case demux_RspIn (lsu_demux s ! b) of
        [] \<Rightarrow> True
      | lsu_rsp # rsps \<Rightarrow>
          (case ht_at (pending_rd_reqs (states s ! b)) (lsu_rsp_index lsu_rsp) of
             Inl e \<Rightarrow> True
           | Inr entry \<Rightarrow> bv_subset (rsp_mask lsu_rsp) (entry_mask entry)))"

definition lsu_rsp_ok :: "Config \<Rightarrow> LsuUnit \<Rightarrow> bool" where
  "lsu_rsp_ok cfg s \<longleftrightarrow> list_all (lsu_rsp_ok_bank s) [0..<NUM_LSU_BLOCKS cfg]"

definition lsu_count_inv :: "LsuUnit \<Rightarrow> bool" where
  "lsu_count_inv s \<longleftrightarrow> pending_loads s = of_nat (total_remaining s)"

text \<open>
  Slot \<open>idx\<close> of block \<open>b\<close> is allocated and holds \<open>trace\<close> with the remaining mask \<open>m\<close>.
\<close>

definition lsu_slot_awaits :: "LsuUnit \<Rightarrow> nat \<Rightarrow> nat \<Rightarrow> Trace \<Rightarrow> BitVector \<Rightarrow> bool" where
  "lsu_slot_awaits s b idx trace m \<longleftrightarrow>
     b < length (lsu_demux s) \<and> b < length (states s) \<and>
     ht_at (pending_rd_reqs (states s ! b)) idx = Inr \<lparr>entry_trace = trace, entry_mask = m\<rparr>"

text \<open>
  The states at cycle boundaries: the unit is reset, then ticks; between two ticks the
  rest of the simulator may change the ports and the counters of the core in any way,
  but neither the per-block states nor \<^verbatim>\<open>pending_loads_\<close>, which belong to the unit. A
  tick is taken when the waiting responses are \<open>lsu_rsp_ok\<close>.
\<close>

inductive lsu_reach :: "Config \<Rightarrow> LsuUnit \<Rightarrow> bool" for cfg :: Config where
  reset: "lsu_reach cfg (LsuUnit_reset s0)"
| env: "lsu_reach cfg s \<Longrightarrow> states s' = states s \<Longrightarrow> pending_loads s' = pending_loads s
          \<Longrightarrow> lsu_reach cfg s'"
| tick: "lsu_reach cfg s \<Longrightarrow> lsu_rsp_ok cfg s \<Longrightarrow> LsuUnit_tick cfg s = Inr s'
          \<Longrightarrow> lsu_reach cfg s'"

text \<open>
  A stretch of cycles during which block \<open>b\<close> still has a load outstanding at every
  issue phase, starting from \<open>s\<close>: between two ticks the front end may only append
  traces to the input queues (it never removes one) and does not touch the per-block
  states; a tick belongs to the stretch when the pending table of \<open>b\<close> is not empty
  once the responses of the cycle have been absorbed.
\<close>

inductive lsu_fenced_run :: "Config \<Rightarrow> nat \<Rightarrow> LsuUnit \<Rightarrow> LsuUnit \<Rightarrow> bool"
  for cfg :: Config and b :: nat and s :: LsuUnit where
  start: "lsu_fenced_run cfg b s s"
| env: "lsu_fenced_run cfg b s t \<Longrightarrow> states t' = states t \<Longrightarrow>
          length (Inputs t') = length (Inputs t) \<Longrightarrow>
          (\<forall>iw<length (Inputs t). prefix (Inputs t ! iw) (Inputs t' ! iw)) \<Longrightarrow>
          lsu_fenced_run cfg b s t'"
| tick: "lsu_fenced_run cfg b s t \<Longrightarrow>
          lsu_rsp_loop cfg (t\<lparr>perf_stats := (perf_stats t)\<lparr>load_latency :=
             load_latency (perf_stats t) + pending_loads t\<rparr>\<rparr>) = Inr t1 \<Longrightarrow>
          \<not> ht_empty (pending_rd_reqs (states t1 ! b)) \<Longrightarrow>
          lsu_issue_loop cfg t1 = Inr t' \<Longrightarrow>
          lsu_fenced_run cfg b s t'"

text \<open>
  What holds of block \<open>b\<close> at the end of such a stretch, compared with its start: the
  lock is set, the latched fence is the same, and every input queue of a lane of the
  block still begins with the traces it held at the start, in the same order.
\<close>

definition lsu_fence_held :: "Config \<Rightarrow> nat \<Rightarrow> LsuUnit \<Rightarrow> LsuUnit \<Rightarrow> bool" where
  "lsu_fence_held cfg b s s' \<longleftrightarrow>
     length (states s') = length (states s) \<and> length (Inputs s') = length (Inputs s) \<and>
     fence_lock (states s' ! b) \<and> fence_trace (states s' ! b) = fence_trace (states s ! b) \<and>
     (\<forall>iw<length (Inputs s). iw mod NUM_LSU_BLOCKS cfg = b \<longrightarrow>
        prefix (Inputs s ! iw) (Inputs s' ! iw))"

text \<open>
  A tick seen from lane \<open>iw\<close>: the response loop takes \<open>s\<close> (with the latency counter
  advanced) to \<open>s1\<close>, the issue loop serves the lanes before \<open>iw\<close> and reaches \<open>sa\<close>,
  the step of lane \<open>iw\<close> gives \<open>sb\<close>, and the lanes after \<open>iw\<close> give \<open>s'\<close>.
\<close>

definition lsu_tick_at ::
  "Config \<Rightarrow> nat \<Rightarrow> LsuUnit \<Rightarrow> LsuUnit \<Rightarrow> LsuUnit \<Rightarrow> LsuUnit \<Rightarrow> LsuUnit \<Rightarrow> bool" where
  "lsu_tick_at cfg iw s s1 sa sb s' \<longleftrightarrow>
     lsu_rsp_loop cfg (s\<lparr>perf_stats := (perf_stats s)\<lparr>load_latency :=
        load_latency (perf_stats s) + pending_loads s\<rparr>\<rparr>) = Inr s1 \<and>
     for_each [0..<iw] (lsu_issue_lane cfg) s1 = Inr sa \<and>
     lsu_issue_lane cfg iw sa = Inr sb \<and>
     for_each [Suc iw..<ISSUE_WIDTH cfg] (lsu_issue_lane cfg) sb = Inr s'"

text \<open>
  A stall episode of lane \<open>iw\<close>, starting from \<open>s\<close>: between two ticks the front end
  may only append traces to the input queues and does not touch the per-block states;
  a tick belongs to the episode when the pending table of the lane's block is full
  once the responses of the cycle have been absorbed. The number counts the messages
  that the steps of lane \<open>iw\<close> have added to the log over the episode.
\<close>

inductive lsu_stall_run :: "Config \<Rightarrow> nat \<Rightarrow> LsuUnit \<Rightarrow> nat \<Rightarrow> LsuUnit \<Rightarrow> bool"
  for cfg :: Config and iw :: nat and s :: LsuUnit where
  start: "lsu_stall_run cfg iw s 0 s"
| env: "lsu_stall_run cfg iw s n t \<Longrightarrow> states t' = states t \<Longrightarrow>
          length (Inputs t') = length (Inputs t) \<Longrightarrow>
          (\<forall>j<length (Inputs t). prefix (Inputs t ! j) (Inputs t' ! j)) \<Longrightarrow>
          lsu_stall_run cfg iw s n t'"
| tick: "lsu_stall_run cfg iw s n t \<Longrightarrow> iw < ISSUE_WIDTH cfg \<Longrightarrow>
          LsuUnit_tick cfg t = Inr t' \<Longrightarrow> lsu_tick_at cfg iw t t1 ta tb t' \<Longrightarrow>
          ht_full (pending_rd_reqs (states t1 ! (iw mod NUM_LSU_BLOCKS cfg))) \<Longrightarrow>
          lsu_stall_run cfg iw s (n + (length (lsu_log tb) - length (lsu_log ta))) t'"

section \<open>Concrete scenario of the configuration\<close>

text \<open>
  \<^verbatim>\<open>ISSUE_WIDTH=2\<close>, \<^verbatim>\<open>NUM_LSU_BLOCKS=1\<close>, \<^verbatim>\<open>NUM_LSU_LANES=4\<close>, \<^verbatim>\<open>XLEN=32\<close>,
  \<^verbatim>\<open>LATENCY_IMUL=3\<close>, and a trace of warp 0 with four active threads.
\<close>

definition scenario_cfg :: Config where
  "scenario_cfg = \<lparr>ISSUE_WIDTH = 2, NUM_LSU_BLOCKS = 1, NUM_LSU_LANES = 4, XLEN = 32, LATENCY_IMUL = 3\<rparr>"

definition scenario_trace :: Trace where
  "scenario_trace = \<lparr>uuid = 7, cid = 0, wid = 0, pid = 0, tmask = 15, eop = True,
     fetch_stall = False, alu_type = ARITH, lsu_type = LOAD, sfu_type = TMC,
     data = LsuTraceData [\<lparr>addr = 4096, size_bytes = 4\<rparr>, \<lparr>addr = 4100, size_bytes = 4\<rparr>,
                          \<lparr>addr = 4104, size_bytes = 4\<rparr>, \<lparr>addr = 4108, size_bytes = 4\<rparr>],
     log_once_latch = False\<rparr>"

text \<open>
  An LSU with one block whose pending table has two slots: slot 0 holds an outstanding
  load of all four lanes, the first half of its response is waiting on \<^verbatim>\<open>RspIn\<close>, and a
  second load is at the head of lane 0.
\<close>

definition scenario_entry :: pending_req_t where
  "scenario_entry = \<lparr>entry_trace = scenario_trace, entry_mask = [True, True, True, True]\<rparr>"

definition scenario_rsp_lo :: LsuRsp where
  "scenario_rsp_lo = \<lparr>rsp_mask = [True, True, False, False], rsp_tag = 0, rsp_cid = 0, rsp_uuid = 7\<rparr>"

definition scenario_rsp_hi :: LsuRsp where
  "scenario_rsp_hi = \<lparr>rsp_mask = [False, False, True, True], rsp_tag = 0, rsp_cid = 0, rsp_uuid = 7\<rparr>"

definition scenario_lsu :: LsuUnit where
  "scenario_lsu =
     \<lparr>Inputs = [[scenario_trace\<lparr>uuid := 8\<rparr>], []],
      Outputs = [[], []],
      states = [\<lparr>pending_rd_reqs = \<lparr>entries = [(True, scenario_entry), (False, scenario_entry)],
                                      ht_size = 1\<rparr>,
                 fence_trace = None, fence_lock = False\<rparr>],
      pending_loads = 4,
      perf_stats = \<lparr>load_latency = 10, loads = 4, stores = 0\<rparr>,
      lsu_demux = [\<lparr>demux_ReqIn = [],
                    demux_RspIn = [scenario_rsp_lo]\<rparr>],
      lsu_log = []\<rparr>"

text \<open>The same LSU, fence-locked on a latched fence while the load of slot 0 is outstanding.\<close>

definition scenario_fence :: Trace where
  "scenario_fence = scenario_trace\<lparr>uuid := 9, lsu_type := FENCE\<rparr>"

definition scenario_lsu_locked :: LsuUnit where
  "scenario_lsu_locked =
     scenario_lsu\<lparr>states := [\<lparr>pending_rd_reqs =
                      \<lparr>entries = [(True, scenario_entry), (False, scenario_entry)], ht_size = 1\<rparr>,
                    fence_trace = Some scenario_fence, fence_lock = True\<rparr>],
                  lsu_demux := [\<lparr>demux_ReqIn = [], demux_RspIn = []\<rparr>]\<rparr>"

text \<open>
  The same LSU with both slots of the pending table taken, eight lanes outstanding: the
  load at the head of lane 0 finds the table full.
\<close>

definition scenario_lsu_full :: LsuUnit where
  "scenario_lsu_full =
     scenario_lsu\<lparr>states := [\<lparr>pending_rd_reqs =
                      \<lparr>entries = [(True, scenario_entry), (True, scenario_entry)], ht_size = 2\<rparr>,
                    fence_trace = None, fence_lock = False\<rparr>],
                  pending_loads := 8\<rparr>"

text \<open>An SFU with a warp spawn of \<^verbatim>\<open>(0b1111, 0x1000)\<close> at the head of lane 0.\<close>

definition scenario_wspawn :: Trace where
  "scenario_wspawn = scenario_trace\<lparr>uuid := 10, sfu_type := WSPAWN, data := SFUTraceData 15 4096\<rparr>"

definition scenario_sfu :: SfuUnit where
  "scenario_sfu = \<lparr>Inputs = [[scenario_wspawn], []], Outputs = [[], []], sfu_calls = [],
     core_id = 0, pending_rsps = [], raster_units = [], tex_units = [], om_units = []\<rparr>"

text \<open>A round-robin mux of four inputs on one output.\<close>

definition mux4 :: "nat Mux" where
  "mux4 = \<lparr>mux_Inputs = [[10, 11, 12, 13, 14], [20, 21, 22, 23, 24], [30, 31, 32, 33, 34],
                          [40, 41, 42, 43, 44]],
            mux_Outputs = [[]],
            mux_type = RoundRobin, mux_delay = 1, mux_cursors = [0], mux_num_reqs = 4\<rparr>"

text \<open>
  A switch of two inputs on one output: a request with tag 5 waits on input 1, and the
  response to it, with tag \<open>11 = (5 << 1) | 1\<close>, has come back on the output.
\<close>

definition scenario_switch :: Switch where
  "scenario_switch =
     \<lparr>ReqIn = [[], [\<lparr>mreq_addr = 4096, mreq_write = False, mreq_type = Global, mreq_tag = 5,
                      mreq_cid = 0, mreq_uuid = 7\<rparr>]],
      RspIn = [[], []],
      ReqOut = [[]],
      RspOut = [[\<lparr>mrsp_tag = 11, mrsp_cid = 0, mrsp_uuid = 7\<rparr>]],
      sw_type = RoundRobin, sw_delay = 1, sw_cursors = [0], lg_num_reqs = 1\<rparr>"

section \<open>Properties\<close>

subsection \<open>Error monad and loops\<close>

lemma bindE_simps [simp]: "bindE (Inl e) f = Inl e" "bindE (Inr x) f = f x"
  by (simp_all add: bindE_def)

lemma for_each_append:
  "for_each (xs @ ys) f s = bindE (for_each xs f s) (for_each ys f)"
  by (induction xs arbitrary: s) (auto split: sum.splits)

lemma for_each_snoc:
  "for_each (xs @ [i]) f s = bindE (for_each xs f s) (f i)"
  by (induction xs arbitrary: s) (auto split: sum.splits)

lemma bindE_Inr_iff: "bindE m f = Inr y \<longleftrightarrow> (\<exists>x. m = Inr x \<and> f x = Inr y)"
  by (cases m) simp_all

lemma at_vec_Inr_iff: "at_vec xs i = Inr x \<longleftrightarrow> i < length xs \<and> x = xs ! i"
  by (auto simp: at_vec_def)

lemma push_at_Inr_iff:
  "push_at ps i x d = Inr ps' \<longleftrightarrow> i < length ps \<and> ps' = ps[i := ps ! i @ [(x, d)]]"
  by (auto simp: push_at_def port_push_def)

lemma ht_at_Inr_iff:
  "ht_at h i = Inr v \<longleftrightarrow> i < length (entries h) \<and> entries h ! i = (True, v)"
  by (cases "entries h ! i") (auto simp: ht_at_def bindE_Inr_iff at_vec_Inr_iff)

lemma ht_release_Inr_iff:
  "ht_release h i = Inr h' \<longleftrightarrow> i < length (entries h) \<and> fst (entries h ! i) \<and>
     h' = h\<lparr>entries := (entries h)[i := (False, snd (entries h ! i))], ht_size := ht_size h - 1\<rparr>"
  by (auto simp: ht_release_def bindE_Inr_iff at_vec_Inr_iff)

lemma for_each_preserves:
  assumes "\<And>i s s'. i \<in> set is \<Longrightarrow> f i s = Inr s' \<Longrightarrow> P s \<Longrightarrow> P s'"
    and "for_each is f s = Inr s'" and "P s"
  shows "P s'"
  using assms
proof (induction "is" arbitrary: s)
  case Nil
  then show ?case by simp
next
  case (Cons i "is")
  from Cons.prems(2) obtain s1 where s1: "f i s = Inr s1" "for_each is f s1 = Inr s'"
    by (auto split: sum.splits)
  have P1: "P s1" using Cons.prems(1) [of i s s1] s1(1) Cons.prems(3) by simp
  show ?case
  proof (rule Cons.IH [OF _ s1(2) P1])
    fix j t t'
    assume "j \<in> set is" "f j t = Inr t'" "P t"
    then show "P t'" using Cons.prems(1) [of j t t'] by simp
  qed
qed

subsection \<open>AluUnit\<close>

lemma AluUnit_lane_eq:
  assumes "iw < length (Inputs s)" "iw < length (Outputs s)"
  shows "AluUnit_lane cfg iw s =
    (case Inputs s ! iw of [] \<Rightarrow> Inr s
     | t # rest \<Rightarrow>
        (case alu_type t of AluType_invalid n \<Rightarrow> Inl Abort
         | _ \<Rightarrow> Inr (s\<lparr>Inputs := (Inputs s)[iw := rest],
                       Outputs := (Outputs s)[iw := Outputs s ! iw @ [(t, alu_push_delay cfg (alu_type t))]],
                       alu_calls := (if eop t \<and> fetch_stall t
                                     then alu_calls s @ [Resume (wid t)]
                                     else alu_calls s)\<rparr>)))"
  using assms
  by (simp add: AluUnit_lane_def at_vec_def port_push_def alu_push_delay_def
        split: list.splits AluType.splits)

lemma AluUnit_loop:
  assumes "length (Inputs s) = W" "length (Outputs s) = W" "n \<le> W"
  shows "((\<exists>iw<n. alu_head_invalid s iw) \<longrightarrow> for_each [0..<n] (AluUnit_lane cfg) s = Inl Abort) \<and>
         (\<not> (\<exists>iw<n. alu_head_invalid s iw) \<longrightarrow>
            (\<exists>s'. for_each [0..<n] (AluUnit_lane cfg) s = Inr s' \<and> alu_loop_post cfg W n s s'))"
  using assms(3)
proof (induction n)
  case 0
  then show ?case using assms by (simp add: alu_loop_post_def)
next
  case (Suc n)
  then have n: "n < W" by simp
  have IH: "(\<exists>iw<n. alu_head_invalid s iw) \<Longrightarrow> for_each [0..<n] (AluUnit_lane cfg) s = Inl Abort"
     "\<not> (\<exists>iw<n. alu_head_invalid s iw) \<Longrightarrow>
        \<exists>s'. for_each [0..<n] (AluUnit_lane cfg) s = Inr s' \<and> alu_loop_post cfg W n s s'"
    using Suc by simp_all
  show ?case
  proof (cases "\<exists>iw<n. alu_head_invalid s iw")
    case True
    then have "for_each [0..<n] (AluUnit_lane cfg) s = Inl Abort" by (rule IH(1))
    moreover from True have "\<exists>iw<Suc n. alu_head_invalid s iw" using less_Suc_eq by blast
    ultimately show ?thesis by (simp add: for_each_snoc)
  next
    case False
    then obtain s' where run: "for_each [0..<n] (AluUnit_lane cfg) s = Inr s'"
        and post: "alu_loop_post cfg W n s s'"
      using IH(2) by blast
    have len: "length (Inputs s') = W" "length (Outputs s') = W"
      and same: "Inputs s' ! n = Inputs s ! n" "Outputs s' ! n = Outputs s ! n"
      using post by (simp_all add: alu_loop_post_def)
    have step: "for_each ([0..<n] @ [n]) (AluUnit_lane cfg) s = AluUnit_lane cfg n s'"
      by (simp add: for_each_snoc run)
    note lane = AluUnit_lane_eq [of n s' cfg, unfolded len same, OF n n]
    show ?thesis
    proof (cases "alu_head_invalid s n")
      case True
      then have "AluUnit_lane cfg n s' = Inl Abort"
        unfolding lane by (auto simp: alu_head_invalid_def split: list.splits AluType.splits)
      moreover from True have "\<exists>iw<Suc n. alu_head_invalid s iw" by blast
      ultimately show ?thesis by (simp add: step)
    next
      case nv: False
      with False have none: "\<not> (\<exists>iw<Suc n. alu_head_invalid s iw)"
        using less_Suc_eq by auto
      show ?thesis
      proof (cases "Inputs s ! n")
        case Nil
        then have "AluUnit_lane cfg n s' = Inr s'" unfolding lane by simp
        moreover have "alu_loop_post cfg W (Suc n) s s'"
          using post Nil same by (auto simp: alu_loop_post_def alu_lane_post_def less_Suc_eq)
        ultimately show ?thesis using none by (simp add: step)
      next
        case (Cons t rest)
        let ?s2 = "s'\<lparr>Inputs := (Inputs s')[n := rest],
                       Outputs := (Outputs s')[n := Outputs s ! n @ [(t, alu_push_delay cfg (alu_type t))]],
                       alu_calls := (if eop t \<and> fetch_stall t
                                     then alu_calls s' @ [Resume (wid t)]
                                     else alu_calls s')\<rparr>"
        have "AluUnit_lane cfg n s' = Inr ?s2"
          unfolding lane using nv Cons
          by (auto simp: alu_head_invalid_def split: AluType.splits)
        moreover have "alu_loop_post cfg W (Suc n) s ?s2"
          using post n Cons
          by (auto simp: alu_loop_post_def alu_lane_post_def less_Suc_eq nth_list_update
                split: list.splits)
        ultimately show ?thesis using none by (simp add: step)
      qed
    qed
  qed
qed

text \<open>
  C6. When the input and output vectors have \<^verbatim>\<open>ISSUE_WIDTH\<close> lanes, \<^verbatim>\<open>AluUnit::tick\<close>
  aborts the program if the head of some lane carries an \<^verbatim>\<open>alu_type\<close> that is none of
  the five enumerators; otherwise it returns, and every lane that had a trace at its
  head has lost exactly that trace, pushed on the same lane's output with delay 4 for
  ARITH, BRANCH and SYSCALL, \<^verbatim>\<open>LATENCY_IMUL + 2\<close> for IMUL and \<^verbatim>\<open>XLEN + 2\<close> for IDIV.
\<close>

theorem AluUnit_tick_delays:
  assumes "length (Inputs s) = ISSUE_WIDTH cfg" and "length (Outputs s) = ISSUE_WIDTH cfg"
  shows "(if \<exists>iw<ISSUE_WIDTH cfg. \<exists>t rest n. Inputs s ! iw = t # rest \<and> alu_type t = AluType_invalid n
          then AluUnit_tick cfg s = Inl Abort
          else \<exists>s'. AluUnit_tick cfg s = Inr s' \<and>
            (\<forall>iw<ISSUE_WIDTH cfg. \<forall>t rest. Inputs s ! iw = t # rest \<longrightarrow>
               Inputs s' ! iw = rest \<and>
               (\<exists>d. Outputs s' ! iw = Outputs s ! iw @ [(t, d)] \<and>
                    (alu_type t \<in> {ARITH, BRANCH, SYSCALL} \<longrightarrow> d = 4) \<and>
                    (alu_type t = IMUL \<longrightarrow> d = LATENCY_IMUL cfg + 2) \<and>
                    (alu_type t = IDIV \<longrightarrow> d = XLEN cfg + 2))))"
proof -
  have "alu_head_invalid s iw \<longleftrightarrow> (\<exists>t rest n. Inputs s ! iw = t # rest \<and> alu_type t = AluType_invalid n)"
    for iw
    by (cases "Inputs s ! iw"; cases "alu_type (hd (Inputs s ! iw))") (simp_all add: alu_head_invalid_def)
  then have inv: "(\<exists>iw<ISSUE_WIDTH cfg. \<exists>t rest n. Inputs s ! iw = t # rest \<and> alu_type t = AluType_invalid n)
       \<longleftrightarrow> (\<exists>iw<ISSUE_WIDTH cfg. alu_head_invalid s iw)"
    by simp
  note loop = AluUnit_loop [OF assms order_refl, of cfg, folded AluUnit_tick_def]
  show ?thesis
  proof (cases "\<exists>iw<ISSUE_WIDTH cfg. alu_head_invalid s iw")
    case True
    then show ?thesis using loop inv by simp
  next
    case False
    then obtain s' where run: "AluUnit_tick cfg s = Inr s'"
      and post: "alu_loop_post cfg (ISSUE_WIDTH cfg) (ISSUE_WIDTH cfg) s s'"
      using loop by blast
    have "\<forall>iw<ISSUE_WIDTH cfg. \<forall>t rest. Inputs s ! iw = t # rest \<longrightarrow>
               Inputs s' ! iw = rest \<and>
               (\<exists>d. Outputs s' ! iw = Outputs s ! iw @ [(t, d)] \<and>
                    (alu_type t \<in> {ARITH, BRANCH, SYSCALL} \<longrightarrow> d = 4) \<and>
                    (alu_type t = IMUL \<longrightarrow> d = LATENCY_IMUL cfg + 2) \<and>
                    (alu_type t = IDIV \<longrightarrow> d = XLEN cfg + 2))"
      using post by (auto simp: alu_loop_post_def alu_lane_post_def alu_push_delay_def)
    then show ?thesis using False inv run by simp
  qed
qed


theorem AluUnit_tick_delays_witness:
  "\<exists>s'. AluUnit_tick scenario_cfg
          \<lparr>Inputs = [[scenario_trace], [scenario_trace\<lparr>alu_type := IDIV\<rparr>]],
           Outputs = [[], []], alu_calls = []\<rparr> = Inr s' \<and>
        Inputs s' = [[], []] \<and>
        Outputs s' = [[(scenario_trace, 4)], [(scenario_trace\<lparr>alu_type := IDIV\<rparr>, 34)]]"
  using AluUnit_tick_delays [of "\<lparr>Inputs = [[scenario_trace], [scenario_trace\<lparr>alu_type := IDIV\<rparr>]],
           Outputs = [[], []], alu_calls = []\<rparr>" scenario_cfg]
  by (simp add: scenario_cfg_def scenario_trace_def AluUnit_tick_def AluUnit_lane_def
        at_vec_def port_push_def upt_rec)

subsection \<open>LsuUnit: what each step of the tick does\<close>

lemma lsu_absorb_Inr_iff:
  "lsu_absorb cfg rsp state outs = Inr (state', outs') \<longleftrightarrow>
     (\<exists>entry. ht_at (pending_rd_reqs state) (lsu_rsp_index rsp) = Inr entry \<and>
        \<not> bv_none (entry_mask entry) \<and>
        (if bv_none (bv_and_not (entry_mask entry) (rsp_mask rsp))
         then 0 < ISSUE_WIDTH cfg \<and>
              wid (entry_trace entry) mod ISSUE_WIDTH cfg < length outs \<and>
              outs' = outs[wid (entry_trace entry) mod ISSUE_WIDTH cfg :=
                         outs ! (wid (entry_trace entry) mod ISSUE_WIDTH cfg) @ [(entry_trace entry, 1)]] \<and>
              state' = state\<lparr>pending_rd_reqs := (pending_rd_reqs state)
                 \<lparr>entries := (entries (pending_rd_reqs state))[lsu_rsp_index rsp :=
                     (False, entry\<lparr>entry_mask := bv_and_not (entry_mask entry) (rsp_mask rsp)\<rparr>)],
                  ht_size := ht_size (pending_rd_reqs state) - 1\<rparr>\<rparr>
         else outs' = outs \<and>
              state' = state\<lparr>pending_rd_reqs := (pending_rd_reqs state)
                 \<lparr>entries := (entries (pending_rd_reqs state))[lsu_rsp_index rsp :=
                     (True, entry\<lparr>entry_mask := bv_and_not (entry_mask entry) (rsp_mask rsp)\<rparr>)]\<rparr>\<rparr>))"
  unfolding lsu_absorb_def Let_def
  by (auto simp: bindE_Inr_iff ht_at_Inr_iff ht_release_Inr_iff push_at_Inr_iff ht_put_def)

lemma lsu_rsp_block_Inr_iff:
  "lsu_rsp_block cfg b s = Inr s' \<longleftrightarrow>
     b < length (lsu_demux s) \<and>
     (case demux_RspIn (lsu_demux s ! b) of
        [] \<Rightarrow> s' = s
      | rsp # rsps \<Rightarrow> b < length (states s) \<and>
          (\<exists>state' outs'. lsu_absorb cfg rsp (states s ! b) (Outputs s) = Inr (state', outs') \<and>
             s' = s\<lparr>Outputs := outs',
                     states := (states s)[b := state'],
                     pending_loads := pending_loads s - of_nat (bv_count (rsp_mask rsp)),
                     lsu_demux := (lsu_demux s)[b := (lsu_demux s ! b)\<lparr>demux_RspIn := rsps\<rparr>]\<rparr>))"
  unfolding lsu_rsp_block_def
  by (cases "demux_RspIn (lsu_demux s ! b)")
     (auto simp: bindE_Inr_iff at_vec_Inr_iff)

lemma lsu_rsp_block_perf:
  "lsu_rsp_block cfg b s = Inr s' \<Longrightarrow> perf_stats s' = perf_stats s"
  by (cases "demux_RspIn (lsu_demux s ! b)") (auto simp: lsu_rsp_block_Inr_iff)

lemma lsu_fence_unlock_Inr_iff:
  "lsu_fence_unlock iw b s = Inr r \<longleftrightarrow>
     b < length (states s) \<and>
     (if fence_lock (states s ! b) then
        (if \<not> ht_empty (pending_rd_reqs (states s ! b)) then r = None
         else \<exists>ft. fence_trace (states s ! b) = Some ft \<and> iw < length (Outputs s) \<and>
                r = Some (s\<lparr>Outputs := (Outputs s)[iw := Outputs s ! iw @ [(ft, 1)]],
                             states := (states s)[b := (states s ! b)\<lparr>fence_lock := False\<rparr>]\<rparr>))
      else r = Some s)"
  unfolding lsu_fence_unlock_def
  by (cases "fence_trace (states s ! b)")
     (auto simp: bindE_Inr_iff at_vec_Inr_iff push_at_Inr_iff)

lemma lsu_fence_unlock_perf:
  "lsu_fence_unlock iw b s = Inr (Some s') \<Longrightarrow> perf_stats s' = perf_stats s"
  by (auto simp: lsu_fence_unlock_Inr_iff split: if_splits)


lemma lsu_issue_input_empty:
  assumes "b < length (states s)" "iw < length (Inputs s)" "Inputs s ! iw = []"
  shows "lsu_issue_input cfg iw b s = Inr s"
  using assms by (simp add: lsu_issue_input_def at_vec_def)

lemma lsu_issue_input_fence:
  assumes "b < length (states s)" "iw < length (Inputs s)" "Inputs s ! iw = trace # rest"
    and "lsu_type trace = FENCE"
  shows "lsu_issue_input cfg iw b s =
           Inr (s\<lparr>Inputs := (Inputs s)[iw := rest],
                   states := (states s)[b := (states s ! b)\<lparr>fence_trace := Some trace, fence_lock := True\<rparr>]\<rparr>)"
  using assms by (simp add: lsu_issue_input_def at_vec_def)

lemma lsu_issue_input_stall:
  assumes "b < length (states s)" "iw < length (Inputs s)" "Inputs s ! iw = trace # rest"
    and "lsu_type trace = LOAD" and "ht_full (pending_rd_reqs (states s ! b))"
  shows "lsu_issue_input cfg iw b s =
           Inr (s\<lparr>Inputs := (Inputs s)[iw := trace\<lparr>log_once_latch := True\<rparr> # rest],
                   lsu_log := (if \<not> log_once_latch trace
                               then lsu_log s @ [Queue_full (trace\<lparr>log_once_latch := True\<rparr>)]
                               else lsu_log s)\<rparr>)"
  using assms by (simp add: lsu_issue_input_def at_vec_def log_once_def)

lemma lsu_issue_input_load_Inr_iff:
  assumes "b < length (states s)" "iw < length (Inputs s)" "Inputs s ! iw = trace # rest"
    and "lsu_type trace = LOAD" and "\<not> ht_full (pending_rd_reqs (states s ! b))"
  shows "lsu_issue_input cfg iw b s = Inr s' \<longleftrightarrow>
     (\<exists>req0 tag table.
        lsu_build_req cfg (trace\<lparr>log_once_latch := False\<rparr>) False = Inr req0 \<and>
        ht_allocate (pending_rd_reqs (states s ! b))
          \<lparr>entry_trace = trace\<lparr>log_once_latch := False\<rparr>, entry_mask = req_mask req0\<rparr> = Inr (tag, table) \<and>
        b < length (lsu_demux s) \<and>
        s' = s\<lparr>Inputs := (Inputs s)[iw := rest],
                Outputs := Outputs s,
                states := (states s)[b := (states s ! b)\<lparr>pending_rd_reqs := table\<rparr>],
                pending_loads := pending_loads s + of_nat (bv_count (req_mask req0)),
                perf_stats := (perf_stats s)\<lparr>loads := loads (perf_stats s) + of_nat (bv_count (req_mask req0))\<rparr>,
                lsu_demux := (lsu_demux s)[b := (lsu_demux s ! b)\<lparr>demux_ReqIn := demux_ReqIn (lsu_demux s ! b) @
                    [req0\<lparr>req_tag := of_nat tag, req_cid := cid trace, req_uuid := uuid trace\<rparr>]\<rparr>]\<rparr>)"
  using assms
  by (auto simp: lsu_issue_input_def at_vec_def log_once_def bindE_Inr_iff Let_def)

lemma lsu_issue_input_store_Inr_iff:
  assumes "b < length (states s)" "iw < length (Inputs s)" "Inputs s ! iw = trace # rest"
    and "lsu_type trace = STORE"
  shows "lsu_issue_input cfg iw b s = Inr s' \<longleftrightarrow>
     (\<exists>req0.
        lsu_build_req cfg (trace\<lparr>log_once_latch := False\<rparr>) True = Inr req0 \<and>
        b < length (lsu_demux s) \<and> iw < length (Outputs s) \<and>
        s' = s\<lparr>Inputs := (Inputs s)[iw := rest],
                Outputs := (Outputs s)[iw := Outputs s ! iw @ [(trace\<lparr>log_once_latch := False\<rparr>, 1)]],
                states := (states s)[b := (states s ! b)\<lparr>pending_rd_reqs := pending_rd_reqs (states s ! b)\<rparr>],
                pending_loads := pending_loads s,
                perf_stats := (perf_stats s)\<lparr>stores := stores (perf_stats s) + of_nat (bv_count (req_mask req0))\<rparr>,
                lsu_demux := (lsu_demux s)[b := (lsu_demux s ! b)\<lparr>demux_ReqIn := demux_ReqIn (lsu_demux s ! b) @
                    [req0\<lparr>req_tag := 0, req_cid := cid trace, req_uuid := uuid trace\<rparr>]\<rparr>]\<rparr>)"
  using assms
  by (auto simp: lsu_issue_input_def at_vec_def log_once_def bindE_Inr_iff Let_def push_at_Inr_iff)

lemma lsu_issue_input_Inr_dims:
  "lsu_issue_input cfg iw b s = Inr s' \<Longrightarrow> b < length (states s) \<and> iw < length (Inputs s)"
  by (auto simp: lsu_issue_input_def bindE_Inr_iff at_vec_Inr_iff)

lemma lsu_issue_input_latency:
  assumes "lsu_issue_input cfg iw b s = Inr s'"
  shows "load_latency (perf_stats s') = load_latency (perf_stats s)"
proof -
  from assms have dims: "b < length (states s)" "iw < length (Inputs s)"
    by (simp_all add: lsu_issue_input_Inr_dims)
  show ?thesis
  proof (cases "Inputs s ! iw")
    case Nil
    then show ?thesis using assms lsu_issue_input_empty [OF dims] by simp
  next
    case (Cons trace rest)
    show ?thesis
    proof (cases "lsu_type trace")
      case LOAD
      show ?thesis
      proof (cases "ht_full (pending_rd_reqs (states s ! b))")
        case True
        then show ?thesis
          using assms lsu_issue_input_stall [OF dims Cons LOAD] by auto
      next
        case False
        then show ?thesis
          using assms lsu_issue_input_load_Inr_iff [OF dims Cons LOAD] by auto
      qed
    next
      case STORE
      then show ?thesis
        using assms lsu_issue_input_store_Inr_iff [OF dims Cons] by auto
    next
      case FENCE
      then show ?thesis
        using assms lsu_issue_input_fence [OF dims Cons] by auto
    qed
  qed
qed

lemma lsu_issue_lane_Inr_iff:
  "lsu_issue_lane cfg iw s = Inr s' \<longleftrightarrow>
     0 < NUM_LSU_BLOCKS cfg \<and>
     (\<exists>r. lsu_fence_unlock iw (iw mod NUM_LSU_BLOCKS cfg) s = Inr r \<and>
        (case r of None \<Rightarrow> s' = s
         | Some s1 \<Rightarrow> lsu_issue_input cfg iw (iw mod NUM_LSU_BLOCKS cfg) s1 = Inr s'))"
  by (auto simp: lsu_issue_lane_def bindE_Inr_iff Let_def split: option.splits)

lemma lsu_issue_lane_latency:
  assumes "lsu_issue_lane cfg iw s = Inr s'"
  shows "load_latency (perf_stats s') = load_latency (perf_stats s)"
proof -
  from assms obtain r where r: "lsu_fence_unlock iw (iw mod NUM_LSU_BLOCKS cfg) s = Inr r"
    and c: "case r of None \<Rightarrow> s' = s
         | Some s1 \<Rightarrow> lsu_issue_input cfg iw (iw mod NUM_LSU_BLOCKS cfg) s1 = Inr s'"
    by (auto simp: lsu_issue_lane_Inr_iff)
  show ?thesis
  proof (cases r)
    case None
    then show ?thesis using c by simp
  next
    case (Some s1)
    then show ?thesis
      using c r lsu_fence_unlock_perf [of iw _ s s1] lsu_issue_input_latency [of cfg iw _ s1 s']
      by simp
  qed
qed

subsection \<open>LsuUnit: the latency counter\<close>

text \<open>
  C9. A tick of the LSU that returns has increased \<^verbatim>\<open>load_latency\<close> by exactly the value
  \<^verbatim>\<open>pending_loads_\<close> had when the tick started: the addition at the top of the tick is
  the only write to the counter, and it comes before any response is absorbed and
  before any load issues.
\<close>

theorem LsuUnit_tick_load_latency:
  assumes "LsuUnit_tick cfg s = Inr s'"
  shows "load_latency (perf_stats s') = load_latency (perf_stats s) + pending_loads s"
proof -
  let ?s0 = "s\<lparr>perf_stats := (perf_stats s)\<lparr>load_latency :=
                    load_latency (perf_stats s) + pending_loads s\<rparr>\<rparr>"
  from assms obtain s1 where rsp: "lsu_rsp_loop cfg ?s0 = Inr s1"
    and iss: "lsu_issue_loop cfg s1 = Inr s'"
    by (auto simp: LsuUnit_tick_def bindE_Inr_iff)
  have "perf_stats s1 = perf_stats ?s0"
    using rsp unfolding lsu_rsp_loop_def
    by (rule for_each_preserves [where P = "\<lambda>x. perf_stats x = perf_stats ?s0", rotated])
       (simp_all add: lsu_rsp_block_perf)
  moreover have "load_latency (perf_stats s') = load_latency (perf_stats s1)"
    using iss unfolding lsu_issue_loop_def
    by (rule for_each_preserves
          [where P = "\<lambda>x. load_latency (perf_stats x) = load_latency (perf_stats s1)", rotated])
       (simp_all add: lsu_issue_lane_latency)
  ultimately show ?thesis by simp
qed

lemmas scenario_eval = LsuUnit_tick_def lsu_rsp_loop_def lsu_issue_loop_def scenario_cfg_def scenario_lsu_def
     lsu_rsp_block_def lsu_absorb_def lsu_issue_lane_def lsu_fence_unlock_def lsu_issue_input_def
     lsu_build_req_def LsuReq_new_def bv_new_def bv_set_def bv_none_def bv_count_def bv_and_not_def
     ht_at_def ht_put_def ht_allocate_def ht_release_def ht_full_def ht_empty_def
     at_vec_def push_at_def port_push_def log_once_def lsu_rsp_index_def
     scenario_entry_def scenario_trace_def scenario_rsp_lo_def scenario_rsp_hi_def upt_rec Let_def

theorem LsuUnit_tick_load_latency_witness:
  "\<exists>s'. LsuUnit_tick scenario_cfg scenario_lsu = Inr s' \<and> pending_loads scenario_lsu = 4 \<and>
        load_latency (perf_stats scenario_lsu) = 10 \<and> load_latency (perf_stats s') = 14"
proof -
  obtain s' where run: "LsuUnit_tick scenario_cfg scenario_lsu = Inr s'"
    by (simp add: scenario_eval)
  have "load_latency (perf_stats s') = load_latency (perf_stats scenario_lsu) + pending_loads scenario_lsu"
    by (rule LsuUnit_tick_load_latency [OF run])
  then show ?thesis using run by (simp add: scenario_lsu_def)
qed

subsection \<open>HashTable and the pending tables of the LSU\<close>

lemma ht_scan_Some:
  "ht_scan es i = Some j \<Longrightarrow>
     i \<le> j \<and> j - i < length es \<and> \<not> fst (es ! (j - i)) \<and> (\<forall>k<j - i. fst (es ! k))"
proof (induction es arbitrary: i)
  case Nil
  then show ?case by simp
next
  case (Cons e es)
  show ?case
  proof (cases "fst e")
    case False
    then show ?thesis using Cons.prems by simp
  next
    case True
    then have "ht_scan es (Suc i) = Some j" using Cons.prems by simp
    from Cons.IH [OF this] have IH: "Suc i \<le> j" "j - Suc i < length es"
      "\<not> fst (es ! (j - Suc i))" "\<forall>k<j - Suc i. fst (es ! k)" by simp_all
    from IH(1) have eq: "j - i = Suc (j - Suc i)" by simp
    show ?thesis using IH True unfolding eq by (auto simp: nth_Cons split: nat.splits)
  qed
qed

lemma ht_scan_None: "ht_scan es i = None \<longleftrightarrow> (\<forall>e\<in>set es. fst e)"
  by (induction es arbitrary: i) auto

lemma ht_scan_free_Some:
  "\<not> fst (es ! k) \<Longrightarrow> k < length es \<Longrightarrow> \<exists>j. ht_scan es i = Some j"
proof (cases "ht_scan es i")
  case None
  then have "\<forall>e\<in>set es. fst e" by (simp add: ht_scan_None)
  moreover assume "\<not> fst (es ! k)" "k < length es"
  ultimately show ?thesis using nth_mem by blast
next
  case (Some j)
  then show ?thesis by simp
qed

lemma ht_allocate_Inr_iff:
  "ht_allocate h v = Inr (i, h') \<longleftrightarrow>
     i < length (entries h) \<and> \<not> fst (entries h ! i) \<and> (\<forall>k<i. fst (entries h ! k)) \<and>
     h' = h\<lparr>entries := (entries h)[i := (True, v)], ht_size := ht_size h + 1\<rparr>"
proof
  assume a: "ht_allocate h v = Inr (i, h')"
  then obtain j where j: "ht_scan (entries h) 0 = Some j"
    by (cases "ht_scan (entries h) 0") (simp_all add: ht_allocate_def)
  with a have "i = j" "h' = h\<lparr>entries := (entries h)[j := (True, v)], ht_size := ht_size h + 1\<rparr>"
    by (auto simp: ht_allocate_def)
  then show "i < length (entries h) \<and> \<not> fst (entries h ! i) \<and> (\<forall>k<i. fst (entries h ! k)) \<and>
     h' = h\<lparr>entries := (entries h)[i := (True, v)], ht_size := ht_size h + 1\<rparr>"
    using ht_scan_Some [OF j] by simp
next
  assume r: "i < length (entries h) \<and> \<not> fst (entries h ! i) \<and> (\<forall>k<i. fst (entries h ! k)) \<and>
     h' = h\<lparr>entries := (entries h)[i := (True, v)], ht_size := ht_size h + 1\<rparr>"
  then obtain j where j: "ht_scan (entries h) 0 = Some j"
    using ht_scan_free_Some [of "entries h" i 0] by blast
  from ht_scan_Some [OF j] have "j < length (entries h)" "\<not> fst (entries h ! j)"
    "\<forall>k<j. fst (entries h ! k)" by simp_all
  with r have "i = j" by (metis linorder_neqE_nat)
  then show "ht_allocate h v = Inr (i, h')" using r j by (simp add: ht_allocate_def)
qed

lemma filter_fst_update_alloc:
  "i < length es \<Longrightarrow> \<not> fst (es ! i) \<Longrightarrow>
     length (filter fst (es[i := (True, v)])) = Suc (length (filter fst es))"
proof (induction es arbitrary: i)
  case Nil
  then show ?case by simp
next
  case (Cons e es)
  then show ?case by (cases i) auto
qed

lemma filter_fst_update_release:
  "i < length es \<Longrightarrow> fst (es ! i) \<Longrightarrow>
     Suc (length (filter fst (es[i := (False, v)]))) = length (filter fst es)"
proof (induction es arbitrary: i)
  case Nil
  then show ?case by simp
next
  case (Cons e es)
  then show ?case by (cases i) auto
qed

lemma filter_fst_update_same:
  "i < length es \<Longrightarrow> fst (es ! i) \<Longrightarrow>
     length (filter fst (es[i := (True, v)])) = length (filter fst es)"
proof (induction es arbitrary: i)
  case Nil
  then show ?case by simp
next
  case (Cons e es)
  then show ?case by (cases i) auto
qed

lemma ht_wf_not_full_free:
  assumes "ht_wf h" "\<not> ht_full h"
  shows "\<exists>k<length (entries h). \<not> fst (entries h ! k)"
proof (rule ccontr)
  assume "\<not> ?thesis"
  then have "\<forall>e\<in>set (entries h). fst e" by (metis in_set_conv_nth)
  then have "filter fst (entries h) = entries h" by (simp add: filter_id_conv)
  with assms show False by (simp add: ht_wf_def ht_full_def)
qed

lemma ht_allocate_wf:
  assumes "ht_wf h" "ht_allocate h v = Inr (i, h')"
  shows "ht_wf h'"
proof -
  from assms(2) have i: "i < length (entries h)" "\<not> fst (entries h ! i)"
    and h': "h' = h\<lparr>entries := (entries h)[i := (True, v)], ht_size := ht_size h + 1\<rparr>"
    by (simp_all add: ht_allocate_Inr_iff)
  have cnt: "length (filter fst (entries h')) = Suc (length (filter fst (entries h)))"
    using i by (simp add: h' filter_fst_update_alloc)
  have "length (filter fst (entries h')) \<le> length (entries h')" by (rule length_filter_le)
  then have "Suc (unat (ht_size h)) < 2 ^ 32"
    using assms(1) cnt by (simp add: ht_wf_def h')
  then have "unat (ht_size h + 1) = Suc (unat (ht_size h))"
    by (simp add: unat_word_ariths)
  then show ?thesis using assms(1) cnt by (simp add: ht_wf_def h')
qed

lemma ht_wf_release_any:
  assumes "ht_wf h" "i < length (entries h)" "fst (entries h ! i)"
  shows "ht_wf (h\<lparr>entries := (entries h)[i := (False, v)], ht_size := ht_size h - 1\<rparr>)"
proof -
  have cnt: "Suc (length (filter fst ((entries h)[i := (False, v)]))) = length (filter fst (entries h))"
    using assms(2,3) by (simp add: filter_fst_update_release)
  then have "unat (ht_size h) \<noteq> 0" using assms(1) by (metis ht_wf_def Zero_not_Suc)
  then have "ht_size h \<noteq> 0" by (simp add: unat_eq_0)
  then have "unat (ht_size h - 1) = unat (ht_size h) - 1"
    by (simp add: unat_minus_one)
  then show ?thesis using assms(1) cnt by (simp add: ht_wf_def)
qed

lemma ht_release_wf:
  assumes "ht_wf h" "ht_release h i = Inr h'"
  shows "ht_wf h'"
  using assms ht_wf_release_any [of h i] by (auto simp: ht_release_Inr_iff)

lemma ht_put_wf:
  assumes "ht_wf h" "i < length (entries h)" "fst (entries h ! i)"
  shows "ht_wf (ht_put h i v)"
  using assms by (simp add: ht_wf_def ht_put_def filter_fst_update_same)

lemma ht_clear_wf: "length (entries h) < 2 ^ 32 \<Longrightarrow> ht_wf (ht_clear h)"
  by (simp add: ht_wf_def ht_clear_def filter_empty_conv)


lemma bindE_Inl_iff: "bindE m f = Inl e \<longleftrightarrow> m = Inl e \<or> (\<exists>x. m = Inr x \<and> f x = Inl e)"
  by (cases m) simp_all

lemma for_each_error:
  assumes "\<And>i s s'. i \<in> set is \<Longrightarrow> f i s = Inr s' \<Longrightarrow> P s \<Longrightarrow> P s'"
    and "for_each is f s = Inl e" and "P s"
  shows "\<exists>i s1. i \<in> set is \<and> P s1 \<and> f i s1 = Inl e"
  using assms
proof (induction "is" arbitrary: s)
  case Nil
  then show ?case by simp
next
  case (Cons i "is")
  show ?case
  proof (cases "f i s")
    case (Inl e')
    then show ?thesis using Cons.prems(2,3) by auto
  next
    case (Inr s1)
    then have run: "for_each is f s1 = Inl e" using Cons.prems(2) by simp
    have P1: "P s1" using Cons.prems(1) [of i s s1] Inr Cons.prems(3) by simp
    have "\<exists>j s2. j \<in> set is \<and> P s2 \<and> f j s2 = Inl e"
    proof (rule Cons.IH [OF _ run P1])
      fix j t t'
      assume "j \<in> set is" "f j t = Inr t'" "P t"
      then show "P t'" using Cons.prems(1) [of j t t'] by simp
    qed
    then show ?thesis by auto
  qed
qed

lemma list_all_update:
  "list_all P xs \<Longrightarrow> P y \<Longrightarrow> list_all P (xs[i := y])"
  by (induction xs arbitrary: i) (auto split: nat.splits simp: list_update_code)

lemma lsu_issue_input_load:
  assumes "b < length (states s)" "iw < length (Inputs s)" "Inputs s ! iw = trace # rest"
    and "lsu_type trace = LOAD" and "\<not> ht_full (pending_rd_reqs (states s ! b))"
  shows "lsu_issue_input cfg iw b s =
     bindE (lsu_build_req cfg (trace\<lparr>log_once_latch := False\<rparr>) False) (\<lambda>req0.
       bindE (ht_allocate (pending_rd_reqs (states s ! b))
                \<lparr>entry_trace = trace\<lparr>log_once_latch := False\<rparr>, entry_mask = req_mask req0\<rparr>)
         (\<lambda>(tag, table).
            if b < length (lsu_demux s)
            then Inr (lsu_issued_load s iw b trace rest req0 tag table)
            else Inl OutOfRange))"
  using assms
  by (simp add: lsu_issue_input_def at_vec_def log_once_def Let_def lsu_issued_load_def)

lemma lsu_issue_input_store:
  assumes "b < length (states s)" "iw < length (Inputs s)" "Inputs s ! iw = trace # rest"
    and "lsu_type trace = STORE"
  shows "lsu_issue_input cfg iw b s =
     bindE (lsu_build_req cfg (trace\<lparr>log_once_latch := False\<rparr>) True) (\<lambda>req0.
       if b < length (lsu_demux s) \<and> iw < length (Outputs s)
       then Inr (lsu_issued_store s iw b trace rest req0)
       else Inl OutOfRange)"
  using assms
  by (simp add: lsu_issue_input_def at_vec_def log_once_def Let_def lsu_issued_store_def push_at_def
      port_push_def)

lemma lsu_absorb_wf:
  assumes "lsu_absorb cfg rsp state outs = Inr (state', outs')" "ht_wf (pending_rd_reqs state)"
  shows "ht_wf (pending_rd_reqs state')"
proof -
  let ?h = "pending_rd_reqs state" and ?i = "lsu_rsp_index rsp"
  from assms(1) obtain entry where e: "ht_at ?h ?i = Inr entry"
    and r: "if bv_none (bv_and_not (entry_mask entry) (rsp_mask rsp))
         then state' = state\<lparr>pending_rd_reqs := ?h
                 \<lparr>entries := (entries ?h)[?i :=
                     (False, entry\<lparr>entry_mask := bv_and_not (entry_mask entry) (rsp_mask rsp)\<rparr>)],
                  ht_size := ht_size ?h - 1\<rparr>\<rparr>
         else state' = state\<lparr>pending_rd_reqs := ?h
                 \<lparr>entries := (entries ?h)[?i :=
                     (True, entry\<lparr>entry_mask := bv_and_not (entry_mask entry) (rsp_mask rsp)\<rparr>)]\<rparr>\<rparr>"
    by (auto simp: lsu_absorb_Inr_iff split: if_splits)
  from e have i: "?i < length (entries ?h)" "fst (entries ?h ! ?i)"
    by (simp_all add: ht_at_Inr_iff)
  show ?thesis
  proof (cases "bv_none (bv_and_not (entry_mask entry) (rsp_mask rsp))")
    case True
    then show ?thesis
      using r ht_wf_release_any [OF assms(2) i] by simp
  next
    case False
    then show ?thesis
      using r i assms(2) by (simp add: ht_wf_def filter_fst_update_same)
  qed
qed

lemma lsu_rsp_block_wf:
  assumes "lsu_rsp_block cfg b s = Inr s'" "lsu_wf s"
  shows "lsu_wf s'"
proof (cases "demux_RspIn (lsu_demux s ! b)")
  case Nil
  then show ?thesis using assms by (simp add: lsu_rsp_block_Inr_iff)
next
  case (Cons rsp rsps)
  with assms(1) obtain state' outs' where b: "b < length (states s)"
    and a: "lsu_absorb cfg rsp (states s ! b) (Outputs s) = Inr (state', outs')"
    and s': "states s' = (states s)[b := state']"
    by (auto simp: lsu_rsp_block_Inr_iff)
  have "ht_wf (pending_rd_reqs (states s ! b))"
    using assms(2) b by (simp add: lsu_wf_def list_all_length)
  from lsu_absorb_wf [OF a this] show ?thesis
    using assms(2) by (simp add: lsu_wf_def s' list_all_update)
qed

lemma lsu_fence_unlock_wf:
  assumes "lsu_fence_unlock iw b s = Inr (Some s1)" "lsu_wf s"
  shows "lsu_wf s1"
  using assms
  by (auto simp: lsu_fence_unlock_Inr_iff lsu_wf_def list_all_length nth_list_update split: if_splits)

lemma lsu_issue_input_wf:
  assumes "lsu_issue_input cfg iw b s = Inr s'" "lsu_wf s"
  shows "lsu_wf s'"
proof -
  from assms have dims: "b < length (states s)" "iw < length (Inputs s)"
    by (simp_all add: lsu_issue_input_Inr_dims)
  have wfb: "ht_wf (pending_rd_reqs (states s ! b))"
    using assms(2) dims by (simp add: lsu_wf_def list_all_length)
  show ?thesis
  proof (cases "Inputs s ! iw")
    case Nil
    then show ?thesis using assms lsu_issue_input_empty [OF dims] by simp
  next
    case (Cons trace rest)
    show ?thesis
    proof (cases "lsu_type trace")
      case LOAD
      show ?thesis
      proof (cases "ht_full (pending_rd_reqs (states s ! b))")
        case True
        then show ?thesis
          using assms lsu_issue_input_stall [OF dims Cons LOAD] by (auto simp: lsu_wf_def)
      next
        case False
        from assms(1) obtain req0 tag table where
          al: "ht_allocate (pending_rd_reqs (states s ! b))
                \<lparr>entry_trace = trace\<lparr>log_once_latch := False\<rparr>, entry_mask = req_mask req0\<rparr> = Inr (tag, table)"
          and s': "s' = lsu_issued_load s iw b trace rest req0 tag table"
          unfolding lsu_issue_input_load [OF dims Cons LOAD False]
          by (auto simp: bindE_Inr_iff split: if_splits)
        have s': "states s' = (states s)[b := (states s ! b)\<lparr>pending_rd_reqs := table\<rparr>]"
          by (simp add: s' lsu_issued_load_def)
        from ht_allocate_wf [OF wfb al] show ?thesis
          using assms(2) by (simp add: lsu_wf_def s' list_all_update)
      qed
    next
      case STORE
      then show ?thesis
        using assms wfb lsu_issue_input_store_Inr_iff [OF dims Cons]
        by (auto simp: lsu_wf_def list_all_update)
    next
      case FENCE
      then show ?thesis
        using assms wfb lsu_issue_input_fence [OF dims Cons]
        by (auto simp: lsu_wf_def list_all_update)
    qed
  qed
qed

lemma lsu_issue_lane_wf:
  assumes "lsu_issue_lane cfg iw s = Inr s'" "lsu_wf s"
  shows "lsu_wf s'"
proof -
  from assms obtain r where r: "lsu_fence_unlock iw (iw mod NUM_LSU_BLOCKS cfg) s = Inr r"
    and c: "case r of None \<Rightarrow> s' = s
         | Some s1 \<Rightarrow> lsu_issue_input cfg iw (iw mod NUM_LSU_BLOCKS cfg) s1 = Inr s'"
    by (auto simp: lsu_issue_lane_Inr_iff)
  show ?thesis
  proof (cases r)
    case None
    then show ?thesis using c assms(2) by simp
  next
    case (Some s1)
    then show ?thesis
      using c r lsu_fence_unlock_wf [of iw _ s s1] lsu_issue_input_wf [of cfg iw _ s1 s'] assms(2)
      by simp
  qed
qed

lemma lsu_req_lanes_no_assert:
  "lsu_req_lanes is trace t0 req \<noteq> Inl (AssertFailed a)"
  by (induction "is" trace t0 req rule: lsu_req_lanes.induct)
     (auto simp: bindE_Inl_iff at_vec_def split: TraceData.splits)

lemma lsu_absorb_no_allocate:
  "lsu_absorb cfg rsp state outs \<noteq> Inl (AssertFailed HT_allocate)"
  by (auto simp: lsu_absorb_def Let_def bindE_Inl_iff ht_at_def at_vec_def push_at_def ht_release_def)

lemma lsu_rsp_block_no_allocate:
  "lsu_rsp_block cfg b s \<noteq> Inl (AssertFailed HT_allocate)"
  using lsu_absorb_no_allocate
  by (auto simp: lsu_rsp_block_def bindE_Inl_iff at_vec_def split: list.splits)

lemma lsu_fence_unlock_no_assert:
  "lsu_fence_unlock iw b s \<noteq> Inl (AssertFailed a)"
  by (auto simp: lsu_fence_unlock_def bindE_Inl_iff at_vec_def push_at_def split: option.splits)

lemma lsu_build_req_no_assert: "lsu_build_req cfg trace w \<noteq> Inl (AssertFailed a)"
  by (simp add: lsu_build_req_def lsu_req_lanes_no_assert)

lemma lsu_issue_input_allocate_fail:
  assumes "lsu_issue_input cfg iw b s = Inl (AssertFailed HT_allocate)"
  shows "b < length (states s) \<and> \<not> ht_full (pending_rd_reqs (states s ! b)) \<and>
         ht_scan (entries (pending_rd_reqs (states s ! b))) 0 = None"
proof -
  from assms have dims: "b < length (states s)" "iw < length (Inputs s)"
    by (auto simp: lsu_issue_input_def bindE_Inl_iff at_vec_def split: if_splits)
  show ?thesis
  proof (cases "Inputs s ! iw")
    case Nil
    then show ?thesis using assms lsu_issue_input_empty [OF dims] by simp
  next
    case (Cons trace rest)
    show ?thesis
    proof (cases "lsu_type trace")
      case LOAD
      show ?thesis
      proof (cases "ht_full (pending_rd_reqs (states s ! b))")
        case True
        then show ?thesis
          using assms lsu_issue_input_stall [OF dims Cons LOAD] by simp
      next
        case False
        then show ?thesis
          using assms dims lsu_build_req_no_assert
          unfolding lsu_issue_input_load [OF dims Cons LOAD False]
          by (auto simp: bindE_Inl_iff ht_allocate_def split: if_splits option.splits)
      qed
    next
      case STORE
      then show ?thesis
        using assms lsu_build_req_no_assert
        unfolding lsu_issue_input_store [OF dims Cons STORE]
        by (auto simp: bindE_Inl_iff split: if_splits)
    next
      case FENCE
      then show ?thesis
        using assms lsu_issue_input_fence [OF dims Cons] by simp
    qed
  qed
qed


lemma ht_allocate_succeeds:
  assumes "ht_wf h" "\<not> ht_full h"
  shows "\<exists>i h'. ht_allocate h v = Inr (i, h')"
proof -
  from ht_wf_not_full_free [OF assms] obtain k where "k < length (entries h)" "\<not> fst (entries h ! k)"
    by blast
  then obtain j where "ht_scan (entries h) 0 = Some j"
    using ht_scan_free_Some [of "entries h" k 0] by blast
  then show ?thesis by (simp add: ht_allocate_def)
qed

lemma lsu_issue_lane_no_allocate_fail:
  assumes "lsu_wf s"
  shows "lsu_issue_lane cfg iw s \<noteq> Inl (AssertFailed HT_allocate)"
proof
  assume a: "lsu_issue_lane cfg iw s = Inl (AssertFailed HT_allocate)"
  let ?b = "iw mod NUM_LSU_BLOCKS cfg"
  from a obtain s1 where u: "lsu_fence_unlock iw ?b s = Inr (Some s1)"
    and i: "lsu_issue_input cfg iw ?b s1 = Inl (AssertFailed HT_allocate)"
    using lsu_fence_unlock_no_assert [of iw ?b s HT_allocate]
    by (auto simp: lsu_issue_lane_def Let_def bindE_Inl_iff split: if_splits option.splits)
  have wf1: "lsu_wf s1" by (rule lsu_fence_unlock_wf [OF u assms])
  from lsu_issue_input_allocate_fail [OF i]
  have b: "?b < length (states s1)" and nf: "\<not> ht_full (pending_rd_reqs (states s1 ! ?b))"
    and sc: "ht_scan (entries (pending_rd_reqs (states s1 ! ?b))) 0 = None"
    by simp_all
  have "ht_wf (pending_rd_reqs (states s1 ! ?b))"
    using wf1 b by (simp add: lsu_wf_def list_all_length)
  from ht_wf_not_full_free [OF this nf] obtain k where
    "k < length (entries (pending_rd_reqs (states s1 ! ?b)))"
    "\<not> fst (entries (pending_rd_reqs (states s1 ! ?b)) ! k)" by blast
  from ht_scan_free_Some [OF this(2,1), of 0] show False using sc by simp
qed

lemma LsuUnit_tick_wf:
  assumes "LsuUnit_tick cfg s = Inr s'" "lsu_wf s"
  shows "lsu_wf s'"
proof -
  let ?s0 = "s\<lparr>perf_stats := (perf_stats s)\<lparr>load_latency :=
                    load_latency (perf_stats s) + pending_loads s\<rparr>\<rparr>"
  from assms obtain s1 where rsp: "lsu_rsp_loop cfg ?s0 = Inr s1"
    and iss: "lsu_issue_loop cfg s1 = Inr s'"
    by (auto simp: LsuUnit_tick_def bindE_Inr_iff)
  have wf0: "lsu_wf ?s0" using assms(2) by (simp add: lsu_wf_def)
  have "lsu_wf s1"
    using rsp wf0 unfolding lsu_rsp_loop_def
    by (rule for_each_preserves [where P = lsu_wf, rotated]) (simp add: lsu_rsp_block_wf)
  with iss show ?thesis
    unfolding lsu_issue_loop_def
    by (rule for_each_preserves [where P = lsu_wf, rotated]) (simp add: lsu_issue_lane_wf)
qed

lemma LsuUnit_tick_no_allocate_fail:
  assumes "lsu_wf s"
  shows "LsuUnit_tick cfg s \<noteq> Inl (AssertFailed HT_allocate)"
proof
  assume a: "LsuUnit_tick cfg s = Inl (AssertFailed HT_allocate)"
  let ?s0 = "s\<lparr>perf_stats := (perf_stats s)\<lparr>load_latency :=
                    load_latency (perf_stats s) + pending_loads s\<rparr>\<rparr>"
  have wf0: "lsu_wf ?s0" using assms by (simp add: lsu_wf_def)
  show False
  proof (cases "lsu_rsp_loop cfg ?s0")
    case (Inl e)
    with a have "for_each [0..<NUM_LSU_BLOCKS cfg] (lsu_rsp_block cfg) ?s0 = Inl (AssertFailed HT_allocate)"
      by (simp add: LsuUnit_tick_def lsu_rsp_loop_def)
    from for_each_error [where P = lsu_wf, OF _ this wf0]
    show False using lsu_rsp_block_wf lsu_rsp_block_no_allocate by blast
  next
    case (Inr s1)
    have wf1: "lsu_wf s1"
      using Inr wf0 unfolding lsu_rsp_loop_def
      by (rule for_each_preserves [where P = lsu_wf, rotated]) (simp add: lsu_rsp_block_wf)
    from a Inr have "for_each [0..<ISSUE_WIDTH cfg] (lsu_issue_lane cfg) s1 = Inl (AssertFailed HT_allocate)"
      by (simp add: LsuUnit_tick_def lsu_issue_loop_def)
    from for_each_error [where P = lsu_wf, OF _ this wf1]
    show False using lsu_issue_lane_wf lsu_issue_lane_no_allocate_fail by blast
  qed
qed

text \<open>
  C10. \<^verbatim>\<open>HashTable::allocate\<close> returns the smallest index whose slot is free, so a table
  with no allocated slot hands out index 0. A table whose \<^verbatim>\<open>size_\<close> counts its allocated
  slots and that is not \<^verbatim>\<open>full()\<close> has a free slot, so \<^verbatim>\<open>allocate\<close> succeeds there. Every
  pending table has that property after \<^verbatim>\<open>LsuUnit::reset\<close> and keeps it over a tick, and
  \<^verbatim>\<open>LsuUnit::tick\<close> calls \<^verbatim>\<open>allocate\<close> only for a trace that is not a store and only
  after \<^verbatim>\<open>full()\<close> returned false: no tick ends in the assertion of \<^verbatim>\<open>allocate\<close>.
\<close>

theorem HashTable_allocate_lowest_free:
  "(ht_allocate h v = Inr (i, h') \<longrightarrow>
      i < length (entries h) \<and> \<not> fst (entries h ! i) \<and> (\<forall>k<i. fst (entries h ! k))) \<and>
   (entries h \<noteq> [] \<and> list_all (\<lambda>entry. \<not> fst entry) (entries h) \<longrightarrow>
      (\<exists>h'. ht_allocate h v = Inr (0, h'))) \<and>
   (ht_wf h \<and> \<not> ht_full h \<longrightarrow> (\<exists>i h'. ht_allocate h v = Inr (i, h'))) \<and>
   (list_all (\<lambda>st. length (entries (pending_rd_reqs st)) < 2 ^ 32) (states s0) \<longrightarrow>
      lsu_wf (LsuUnit_reset s0)) \<and>
   (lsu_wf s \<longrightarrow> LsuUnit_tick cfg s \<noteq> Inl (AssertFailed HT_allocate) \<and>
      (\<forall>s'. LsuUnit_tick cfg s = Inr s' \<longrightarrow> lsu_wf s'))"
proof -
  have r: "list_all (\<lambda>st. length (entries (pending_rd_reqs st)) < 2 ^ 32) (states s0) \<longrightarrow>
      lsu_wf (LsuUnit_reset s0)"
    by (simp add: lsu_wf_def LsuUnit_reset_def lsu_state_clear_def list_all_length ht_clear_wf)
  have a: "ht_allocate h v = Inr (i, h') \<longrightarrow>
      i < length (entries h) \<and> \<not> fst (entries h ! i) \<and> (\<forall>k<i. fst (entries h ! k))"
    by (simp add: ht_allocate_Inr_iff)
  have b: "entries h \<noteq> [] \<and> list_all (\<lambda>entry. \<not> fst entry) (entries h) \<longrightarrow>
      (\<exists>h'. ht_allocate h v = Inr (0, h'))"
    by (cases "entries h") (simp_all add: ht_allocate_def)
  have c: "ht_wf h \<and> \<not> ht_full h \<longrightarrow> (\<exists>i h'. ht_allocate h v = Inr (i, h'))"
    by (simp add: ht_allocate_succeeds)
  have d: "lsu_wf s \<longrightarrow> LsuUnit_tick cfg s \<noteq> Inl (AssertFailed HT_allocate) \<and>
      (\<forall>s'. LsuUnit_tick cfg s = Inr s' \<longrightarrow> lsu_wf s')"
    using LsuUnit_tick_no_allocate_fail LsuUnit_tick_wf by blast
  show ?thesis by (intro conjI a b c r d)
qed

theorem HashTable_allocate_lowest_free_witness:
  "ht_allocate (pending_rd_reqs (states scenario_lsu ! 0)) scenario_entry =
     Inr (1, \<lparr>entries = [(True, scenario_entry), (True, scenario_entry)], ht_size = 2\<rparr>) \<and>
   fst (entries (pending_rd_reqs (states scenario_lsu ! 0)) ! 0) \<and>
   ht_wf (pending_rd_reqs (states scenario_lsu ! 0)) \<and>
   \<not> ht_full (pending_rd_reqs (states scenario_lsu ! 0)) \<and>
   lsu_wf scenario_lsu \<and>
   LsuUnit_tick scenario_cfg scenario_lsu \<noteq> Inl (AssertFailed HT_allocate)"
  using HashTable_allocate_lowest_free [of "pending_rd_reqs (states scenario_lsu ! 0)" scenario_entry 1
      "\<lparr>entries = [(True, scenario_entry), (True, scenario_entry)], ht_size = 2\<rparr>"
      scenario_lsu scenario_lsu scenario_cfg]
  by (simp add: scenario_lsu_def ht_allocate_def ht_wf_def ht_full_def lsu_wf_def)

subsection \<open>LsuUnit: the count of outstanding lanes\<close>

lemma sum_list_map_update:
  "i < length xs \<Longrightarrow>
     sum_list (map f (xs[i := y])) + f (xs ! i) = sum_list (map f xs) + (f y :: nat)"
proof (induction xs arbitrary: i)
  case Nil
  then show ?case by simp
next
  case (Cons x xs)
  then show ?case by (cases i) (auto simp: algebra_simps)
qed

lemma sum_list_map_update_same:
  assumes "i < length xs" "f y = (f (xs ! i) :: nat)"
  shows "sum_list (map f (xs[i := y])) = sum_list (map f xs)"
  using sum_list_map_update [OF assms(1), of f y] assms(2) by simp

lemma bv_none_count: "bv_none m \<Longrightarrow> bv_count m = 0"
  by (induction m) (auto simp: bv_none_def bv_count_def)

lemma bv_count_and_not:
  "bv_subset b a \<Longrightarrow> bv_count (bv_and_not a b) + bv_count b = bv_count a"
  unfolding bv_subset_def
  by (induction b a rule: list_all2_induct) (auto simp: bv_count_def bv_and_not_def)

lemma lsu_absorb_remaining:
  assumes "lsu_absorb cfg rsp state outs = Inr (state', outs')"
    and "ht_at (pending_rd_reqs state) (lsu_rsp_index rsp) = Inr entry"
    and "bv_subset (rsp_mask rsp) (entry_mask entry)"
  shows "bank_remaining state' + bv_count (rsp_mask rsp) = bank_remaining state"
proof -
  let ?h = "pending_rd_reqs state" and ?i = "lsu_rsp_index rsp"
  let ?m = "bv_and_not (entry_mask entry) (rsp_mask rsp)"
  from assms(2) have i: "?i < length (entries ?h)" "entries ?h ! ?i = (True, entry)"
    by (simp_all add: ht_at_Inr_iff)
  from assms(1,2) have "entries (pending_rd_reqs state') =
      (entries ?h)[?i := (\<not> bv_none ?m, entry\<lparr>entry_mask := ?m\<rparr>)]"
    by (auto simp: lsu_absorb_Inr_iff split: if_splits)
  then have "bank_remaining state' + slot_remaining (entries ?h ! ?i) =
      bank_remaining state + slot_remaining (\<not> bv_none ?m, entry\<lparr>entry_mask := ?m\<rparr>)"
    using sum_list_map_update [OF i(1), of slot_remaining] by (simp add: bank_remaining_def)
  moreover have "slot_remaining (\<not> bv_none ?m, entry\<lparr>entry_mask := ?m\<rparr>) = bv_count ?m"
    by (simp add: slot_remaining_def bv_none_count)
  moreover have "slot_remaining (entries ?h ! ?i) = bv_count (entry_mask entry)"
    by (simp add: i slot_remaining_def)
  moreover have "bv_count ?m + bv_count (rsp_mask rsp) = bv_count (entry_mask entry)"
    by (rule bv_count_and_not [OF assms(3)])
  ultimately show ?thesis by linarith
qed

lemma lsu_rsp_block_count:
  assumes "lsu_rsp_block cfg b s = Inr s'" "lsu_rsp_ok_bank s b" "lsu_count_inv s"
  shows "lsu_count_inv s'"
proof (cases "demux_RspIn (lsu_demux s ! b)")
  case Nil
  then show ?thesis using assms by (simp add: lsu_rsp_block_Inr_iff)
next
  case (Cons rsp rsps)
  with assms(1) obtain state' outs' where b: "b < length (states s)"
    and a: "lsu_absorb cfg rsp (states s ! b) (Outputs s) = Inr (state', outs')"
    and s': "states s' = (states s)[b := state']"
       "pending_loads s' = pending_loads s - of_nat (bv_count (rsp_mask rsp))"
    by (auto simp: lsu_rsp_block_Inr_iff)
  from a obtain entry where e: "ht_at (pending_rd_reqs (states s ! b)) (lsu_rsp_index rsp) = Inr entry"
    by (auto simp: lsu_absorb_Inr_iff)
  with assms(2) Cons have sub: "bv_subset (rsp_mask rsp) (entry_mask entry)"
    by (simp add: lsu_rsp_ok_bank_def)
  have "bank_remaining state' + bv_count (rsp_mask rsp) = bank_remaining (states s ! b)"
    by (rule lsu_absorb_remaining [OF a e sub])
  moreover have "total_remaining s' + bank_remaining (states s ! b) =
      total_remaining s + bank_remaining state'"
    using sum_list_map_update [OF b, of bank_remaining state']
    by (simp add: total_remaining_def s')
  ultimately have "total_remaining s = total_remaining s' + bv_count (rsp_mask rsp)" by linarith
  then show ?thesis using assms(3) by (simp add: lsu_count_inv_def s')
qed

lemma lsu_rsp_block_ok_other:
  assumes "lsu_rsp_block cfg b s = Inr s'" "b' \<noteq> b"
  shows "lsu_rsp_ok_bank s' b' = lsu_rsp_ok_bank s b'"
proof (cases "demux_RspIn (lsu_demux s ! b)")
  case Nil
  then show ?thesis using assms by (simp add: lsu_rsp_block_Inr_iff)
next
  case (Cons rsp rsps)
  with assms(1) have "states s' ! b' = states s ! b'" "lsu_demux s' ! b' = lsu_demux s ! b'"
    using assms(2) by (auto simp: lsu_rsp_block_Inr_iff)
  then show ?thesis by (simp add: lsu_rsp_ok_bank_def split: list.splits sum.splits)
qed

lemma lsu_rsp_loop_count:
  assumes "distinct bs" "for_each bs (lsu_rsp_block cfg) s = Inr s'"
    and "list_all (lsu_rsp_ok_bank s) bs" "lsu_count_inv s"
  shows "lsu_count_inv s'"
  using assms
proof (induction bs arbitrary: s)
  case Nil
  then show ?case by simp
next
  case (Cons b bs)
  from Cons.prems(2) obtain s1 where s1: "lsu_rsp_block cfg b s = Inr s1"
      "for_each bs (lsu_rsp_block cfg) s1 = Inr s'"
    by (auto split: sum.splits)
  have inv1: "lsu_count_inv s1"
    using lsu_rsp_block_count [OF s1(1)] Cons.prems(3,4) by simp
  have "b' \<in> set bs \<Longrightarrow> lsu_rsp_ok_bank s1 b' = lsu_rsp_ok_bank s b'" for b'
    using Cons.prems(1) lsu_rsp_block_ok_other [OF s1(1), of b'] by auto
  then have "list_all (lsu_rsp_ok_bank s1) bs"
    using Cons.prems(3) by (simp add: list_all_iff)
  then show ?case using Cons.IH [OF _ s1(2) _ inv1] Cons.prems(1) by simp
qed

lemma lsu_fence_unlock_count:
  assumes "lsu_fence_unlock iw b s = Inr (Some s1)" "lsu_count_inv s"
  shows "lsu_count_inv s1"
proof (cases "fence_lock (states s ! b)")
  case False
  then show ?thesis using assms by (simp add: lsu_fence_unlock_Inr_iff)
next
  case True
  with assms(1) have b: "b < length (states s)"
    and s1: "states s1 = (states s)[b := (states s ! b)\<lparr>fence_lock := False\<rparr>]"
       "pending_loads s1 = pending_loads s"
    by (auto simp: lsu_fence_unlock_Inr_iff split: if_splits)
  have "total_remaining s1 = total_remaining s"
    unfolding total_remaining_def s1
    by (rule sum_list_map_update_same [OF b]) (simp add: bank_remaining_def)
  then show ?thesis using assms(2) by (simp add: lsu_count_inv_def s1)
qed

lemma lsu_issue_input_count:
  assumes "lsu_issue_input cfg iw b s = Inr s'" "lsu_count_inv s"
  shows "lsu_count_inv s'"
proof -
  from assms have dims: "b < length (states s)" "iw < length (Inputs s)"
    by (simp_all add: lsu_issue_input_Inr_dims)
  show ?thesis
  proof (cases "Inputs s ! iw")
    case Nil
    then show ?thesis using assms lsu_issue_input_empty [OF dims] by simp
  next
    case (Cons trace rest)
    show ?thesis
    proof (cases "lsu_type trace")
      case LOAD
      show ?thesis
      proof (cases "ht_full (pending_rd_reqs (states s ! b))")
        case True
        then show ?thesis
          using assms lsu_issue_input_stall [OF dims Cons LOAD]
          by (auto simp: lsu_count_inv_def total_remaining_def)
      next
        case False
        let ?h = "pending_rd_reqs (states s ! b)"
        from assms(1) obtain req0 tag table where
          al: "ht_allocate ?h
                \<lparr>entry_trace = trace\<lparr>log_once_latch := False\<rparr>, entry_mask = req_mask req0\<rparr> = Inr (tag, table)"
          and s': "s' = lsu_issued_load s iw b trace rest req0 tag table"
          unfolding lsu_issue_input_load [OF dims Cons LOAD False]
          by (auto simp: bindE_Inr_iff split: if_splits)
        from al have t: "tag < length (entries ?h)" "\<not> fst (entries ?h ! tag)"
          and tb: "entries table = (entries ?h)[tag :=
              (True, \<lparr>entry_trace = trace\<lparr>log_once_latch := False\<rparr>, entry_mask = req_mask req0\<rparr>)]"
          by (auto simp: ht_allocate_Inr_iff)
        have "bank_remaining ((states s ! b)\<lparr>pending_rd_reqs := table\<rparr>) + slot_remaining (entries ?h ! tag) =
            bank_remaining (states s ! b) + bv_count (req_mask req0)"
          using sum_list_map_update [OF t(1), of slot_remaining] tb
          by (simp add: bank_remaining_def slot_remaining_def)
        then have "bank_remaining ((states s ! b)\<lparr>pending_rd_reqs := table\<rparr>) =
            bank_remaining (states s ! b) + bv_count (req_mask req0)"
          using t(2) by (simp add: slot_remaining_def)
        moreover have "total_remaining s' + bank_remaining (states s ! b) =
            total_remaining s + bank_remaining ((states s ! b)\<lparr>pending_rd_reqs := table\<rparr>)"
          using sum_list_map_update [OF dims(1), of bank_remaining]
          by (simp add: total_remaining_def s' lsu_issued_load_def)
        ultimately have "total_remaining s' = total_remaining s + bv_count (req_mask req0)"
          by linarith
        then show ?thesis
          using assms(2) by (simp add: lsu_count_inv_def s' lsu_issued_load_def)
      qed
    next
      case STORE
      then show ?thesis
        using assms lsu_issue_input_store [OF dims Cons]
        by (auto simp: bindE_Inr_iff lsu_count_inv_def total_remaining_def lsu_issued_store_def
            split: if_splits)
    next
      case FENCE
      have s': "states s' = (states s)[b := (states s ! b)\<lparr>fence_trace := Some trace, fence_lock := True\<rparr>]"
          "pending_loads s' = pending_loads s"
        using FENCE assms lsu_issue_input_fence [OF dims Cons] by auto
      have "total_remaining s' = total_remaining s"
        unfolding total_remaining_def s'
        by (rule sum_list_map_update_same [OF dims(1)]) (simp add: bank_remaining_def)
      then show ?thesis using assms(2) by (simp add: lsu_count_inv_def s')
    qed
  qed
qed

lemma lsu_issue_lane_count:
  assumes "lsu_issue_lane cfg iw s = Inr s'" "lsu_count_inv s"
  shows "lsu_count_inv s'"
proof -
  from assms obtain r where r: "lsu_fence_unlock iw (iw mod NUM_LSU_BLOCKS cfg) s = Inr r"
    and c: "case r of None \<Rightarrow> s' = s
         | Some s1 \<Rightarrow> lsu_issue_input cfg iw (iw mod NUM_LSU_BLOCKS cfg) s1 = Inr s'"
    by (auto simp: lsu_issue_lane_Inr_iff)
  show ?thesis
  proof (cases r)
    case None
    then show ?thesis using c assms(2) by simp
  next
    case (Some s1)
    then show ?thesis
      using c r lsu_fence_unlock_count [of iw _ s s1] lsu_issue_input_count [of cfg iw _ s1 s'] assms(2)
      by simp
  qed
qed

lemma LsuUnit_tick_count:
  assumes "LsuUnit_tick cfg s = Inr s'" "lsu_rsp_ok cfg s" "lsu_count_inv s"
  shows "lsu_count_inv s'"
proof -
  let ?s0 = "s\<lparr>perf_stats := (perf_stats s)\<lparr>load_latency :=
                    load_latency (perf_stats s) + pending_loads s\<rparr>\<rparr>"
  from assms obtain s1 where rsp: "lsu_rsp_loop cfg ?s0 = Inr s1"
    and iss: "lsu_issue_loop cfg s1 = Inr s'"
    by (auto simp: LsuUnit_tick_def bindE_Inr_iff)
  have "lsu_rsp_ok_bank ?s0 = lsu_rsp_ok_bank s"
    by (simp add: fun_eq_iff lsu_rsp_ok_bank_def split: list.splits sum.splits)
  then have ok0: "list_all (lsu_rsp_ok_bank ?s0) [0..<NUM_LSU_BLOCKS cfg]"
    using assms(2) by (simp add: lsu_rsp_ok_def)
  have inv0: "lsu_count_inv ?s0" using assms(3) by (simp add: lsu_count_inv_def total_remaining_def)
  have "lsu_count_inv s1"
    using lsu_rsp_loop_count [OF _ rsp [unfolded lsu_rsp_loop_def] ok0 inv0] by simp
  with iss show ?thesis
    unfolding lsu_issue_loop_def
    by (rule for_each_preserves [where P = lsu_count_inv, rotated]) (simp add: lsu_issue_lane_count)
qed

lemma LsuUnit_reset_count: "lsu_count_inv (LsuUnit_reset s0)"
proof -
  have "bank_remaining (lsu_state_clear st) = 0" for st
    by (simp add: bank_remaining_def lsu_state_clear_def ht_clear_def slot_remaining_def comp_def)
  then show ?thesis
    by (simp add: lsu_count_inv_def total_remaining_def LsuUnit_reset_def comp_def)
qed

text \<open>
  C3. At every cycle boundary, that is in every state reached from a reset by ticks
  and by changes of the environment, \<^verbatim>\<open>pending_loads_\<close> is the number of lanes still
  awaited, summed over all blocks and all allocated slots of their pending tables
  (as a \<^verbatim>\<open>uint64_t\<close>), provided that each response absorbed answers only lanes that its
  slot still awaits.
\<close>

theorem pending_loads_counts_remaining_lanes:
  assumes "lsu_reach cfg s"
  shows "pending_loads s = of_nat (total_remaining s)"
proof -
  from assms have "lsu_count_inv s"
  proof (induction rule: lsu_reach.induct)
    case (reset s0)
    show ?case by (rule LsuUnit_reset_count)
  next
    case (env s s')
    then show ?case by (simp add: lsu_count_inv_def total_remaining_def)
  next
    case (tick s s')
    then show ?case using LsuUnit_tick_count by blast
  qed
  then show ?thesis by (simp add: lsu_count_inv_def)
qed


theorem pending_loads_counts_remaining_lanes_witness:
  "\<exists>s'. LsuUnit_tick scenario_cfg
           ((LsuUnit_reset scenario_lsu)\<lparr>lsu_demux := [\<lparr>demux_ReqIn = [], demux_RspIn = []\<rparr>]\<rparr>) = Inr s' \<and>
        lsu_reach scenario_cfg s' \<and> total_remaining s' = 4 \<and> pending_loads s' = 4"
proof -
  let ?s = "(LsuUnit_reset scenario_lsu)\<lparr>lsu_demux := [\<lparr>demux_ReqIn = [], demux_RspIn = []\<rparr>]\<rparr>"
  obtain s' where run: "LsuUnit_tick scenario_cfg ?s = Inr s'" and tot: "total_remaining s' = 4"
    by (simp add: scenario_eval LsuUnit_reset_def lsu_state_clear_def ht_clear_def
          total_remaining_def bank_remaining_def slot_remaining_def eval_nat_numeral)
  have "lsu_reach scenario_cfg ?s"
    by (rule lsu_reach.env [OF lsu_reach.reset]) (simp_all add: LsuUnit_reset_def)
  moreover have "lsu_rsp_ok scenario_cfg ?s"
    by (simp add: lsu_rsp_ok_def lsu_rsp_ok_bank_def scenario_cfg_def)
  ultimately have reach: "lsu_reach scenario_cfg s'"
    using run by (rule lsu_reach.tick)
  from pending_loads_counts_remaining_lanes [OF reach] tot run reach show ?thesis by simp
qed

subsection \<open>LsuUnit: partial responses\<close>

lemma lsu_rsp_block_partial:
  assumes "b < length (lsu_demux s)" "b < length (states s)"
    and "demux_RspIn (lsu_demux s ! b) = rsp # rsps"
    and "ht_at (pending_rd_reqs (states s ! b)) (lsu_rsp_index rsp) = Inr entry"
    and "\<not> bv_none (entry_mask entry)"
    and "\<not> bv_none (bv_and_not (entry_mask entry) (rsp_mask rsp))"
  shows "lsu_rsp_block cfg b s =
     Inr (s\<lparr>Outputs := Outputs s,
             states := (states s)[b := (states s ! b)\<lparr>pending_rd_reqs := (pending_rd_reqs (states s ! b))
                 \<lparr>entries := (entries (pending_rd_reqs (states s ! b)))[lsu_rsp_index rsp :=
                     (True, entry\<lparr>entry_mask := bv_and_not (entry_mask entry) (rsp_mask rsp)\<rparr>)]\<rparr>\<rparr>],
             pending_loads := pending_loads s - of_nat (bv_count (rsp_mask rsp)),
             lsu_demux := (lsu_demux s)[b := (lsu_demux s ! b)\<lparr>demux_RspIn := rsps\<rparr>]\<rparr>)"
  unfolding lsu_rsp_block_Inr_iff using assms by (simp add: lsu_absorb_Inr_iff)

lemma lsu_rsp_block_final:
  assumes "b < length (lsu_demux s)" "b < length (states s)"
    and "demux_RspIn (lsu_demux s ! b) = rsp # rsps"
    and "ht_at (pending_rd_reqs (states s ! b)) (lsu_rsp_index rsp) = Inr entry"
    and "\<not> bv_none (entry_mask entry)"
    and "bv_none (bv_and_not (entry_mask entry) (rsp_mask rsp))"
    and "0 < ISSUE_WIDTH cfg" "wid (entry_trace entry) mod ISSUE_WIDTH cfg < length (Outputs s)"
  shows "lsu_rsp_block cfg b s =
     Inr (s\<lparr>Outputs := (Outputs s)[wid (entry_trace entry) mod ISSUE_WIDTH cfg :=
                Outputs s ! (wid (entry_trace entry) mod ISSUE_WIDTH cfg) @ [(entry_trace entry, 1)]],
             states := (states s)[b := (states s ! b)\<lparr>pending_rd_reqs := (pending_rd_reqs (states s ! b))
                 \<lparr>entries := (entries (pending_rd_reqs (states s ! b)))[lsu_rsp_index rsp :=
                     (False, entry\<lparr>entry_mask := bv_and_not (entry_mask entry) (rsp_mask rsp)\<rparr>)],
                  ht_size := ht_size (pending_rd_reqs (states s ! b)) - 1\<rparr>\<rparr>],
             pending_loads := pending_loads s - of_nat (bv_count (rsp_mask rsp)),
             lsu_demux := (lsu_demux s)[b := (lsu_demux s ! b)\<lparr>demux_RspIn := rsps\<rparr>]\<rparr>)"
  unfolding lsu_rsp_block_Inr_iff using assms by (simp add: lsu_absorb_Inr_iff)

lemma lsu_absorb_partials:
  assumes "lsu_slot_awaits s b idx trace m"
    and "demux_RspIn (lsu_demux s ! b) = rs @ rest"
    and "list_all (\<lambda>r. lsu_rsp_index r = idx) rs"
    and "\<forall>k\<le>length rs. \<not> bv_none (foldl bv_and_not m (map rsp_mask (take k rs)))"
  shows "\<exists>s'. for_each (replicate (length rs) b) (lsu_rsp_block cfg) s = Inr s' \<and>
           Outputs s' = Outputs s \<and> length (states s') = length (states s) \<and>
           lsu_slot_awaits s' b idx trace (foldl bv_and_not m (map rsp_mask rs)) \<and>
           demux_RspIn (lsu_demux s' ! b) = rest \<and>
           ht_size (pending_rd_reqs (states s' ! b)) = ht_size (pending_rd_reqs (states s ! b)) \<and>
           length (entries (pending_rd_reqs (states s' ! b))) = length (entries (pending_rd_reqs (states s ! b))) \<and>
           (\<forall>j. j \<noteq> idx \<longrightarrow> entries (pending_rd_reqs (states s' ! b)) ! j =
                               entries (pending_rd_reqs (states s ! b)) ! j)"
  using assms
proof (induction rs arbitrary: s m)
  case Nil
  then show ?case by simp
next
  case (Cons r rs)
  let ?e = "\<lparr>entry_trace = trace, entry_mask = m\<rparr>"
  let ?m1 = "bv_and_not m (rsp_mask r)"
  from Cons.prems(1) have dims: "b < length (lsu_demux s)" "b < length (states s)"
    and at: "ht_at (pending_rd_reqs (states s ! b)) idx = Inr ?e"
    by (simp_all add: lsu_slot_awaits_def)
  from Cons.prems(3) have idx: "lsu_rsp_index r = idx" and idxs: "list_all (\<lambda>r. lsu_rsp_index r = idx) rs"
    by simp_all
  from Cons.prems(4) [rule_format, of 0] have m0: "\<not> bv_none m" by simp
  from Cons.prems(4) [rule_format, of 1] have m1: "\<not> bv_none ?m1" by simp
  have rest: "\<forall>k\<le>length rs. \<not> bv_none (foldl bv_and_not ?m1 (map rsp_mask (take k rs)))"
  proof (intro allI impI)
    fix k assume "k \<le> length rs"
    then show "\<not> bv_none (foldl bv_and_not ?m1 (map rsp_mask (take k rs)))"
      using Cons.prems(4) [rule_format, of "Suc k"] by simp
  qed
  let ?s1 = "s\<lparr>Outputs := Outputs s,
             states := (states s)[b := (states s ! b)\<lparr>pending_rd_reqs := (pending_rd_reqs (states s ! b))
                 \<lparr>entries := (entries (pending_rd_reqs (states s ! b)))[lsu_rsp_index r :=
                     (True, ?e\<lparr>entry_mask := bv_and_not (entry_mask ?e) (rsp_mask r)\<rparr>)]\<rparr>\<rparr>],
             pending_loads := pending_loads s - of_nat (bv_count (rsp_mask r)),
             lsu_demux := (lsu_demux s)[b := (lsu_demux s ! b)\<lparr>demux_RspIn := rs @ rest\<rparr>]\<rparr>"
  have step: "lsu_rsp_block cfg b s = Inr ?s1"
    using lsu_rsp_block_partial [OF dims, of r "rs @ rest" ?e cfg] Cons.prems(2) at idx m0 m1
    by simp
  from at have i: "idx < length (entries (pending_rd_reqs (states s ! b)))"
    by (simp add: ht_at_Inr_iff)
  have aw1: "lsu_slot_awaits ?s1 b idx trace ?m1"
    using dims i by (simp add: lsu_slot_awaits_def ht_at_Inr_iff idx)
  have q1: "demux_RspIn (lsu_demux ?s1 ! b) = rs @ rest" using dims by simp
  from Cons.IH [OF aw1 q1 idxs rest] obtain s' where
    s': "for_each (replicate (length rs) b) (lsu_rsp_block cfg) ?s1 = Inr s'"
      "Outputs s' = Outputs ?s1" "length (states s') = length (states ?s1)"
      "lsu_slot_awaits s' b idx trace (foldl bv_and_not ?m1 (map rsp_mask rs))"
      "demux_RspIn (lsu_demux s' ! b) = rest"
      "ht_size (pending_rd_reqs (states s' ! b)) = ht_size (pending_rd_reqs (states ?s1 ! b))"
      "length (entries (pending_rd_reqs (states s' ! b))) = length (entries (pending_rd_reqs (states ?s1 ! b)))"
      "\<forall>j. j \<noteq> idx \<longrightarrow> entries (pending_rd_reqs (states s' ! b)) ! j =
                               entries (pending_rd_reqs (states ?s1 ! b)) ! j"
    by blast
  have "for_each (replicate (length (r # rs)) b) (lsu_rsp_block cfg) s = Inr s'"
    using step s'(1) by simp
  then show ?case using s'(2-) dims idx by simp
qed





subsection \<open>LsuUnit: the step of a lane and the fence lock\<close>

lemma lsu_issue_lane_unlocked:
  assumes "0 < NUM_LSU_BLOCKS cfg" "iw mod NUM_LSU_BLOCKS cfg < length (states s)"
    and "\<not> fence_lock (states s ! (iw mod NUM_LSU_BLOCKS cfg))"
  shows "lsu_issue_lane cfg iw s = lsu_issue_input cfg iw (iw mod NUM_LSU_BLOCKS cfg) s"
  using assms by (simp add: lsu_issue_lane_def lsu_fence_unlock_def at_vec_def)

lemma lsu_issue_lane_locked:
  assumes "0 < NUM_LSU_BLOCKS cfg" "iw mod NUM_LSU_BLOCKS cfg < length (states s)"
    and "fence_lock (states s ! (iw mod NUM_LSU_BLOCKS cfg))"
    and "\<not> ht_empty (pending_rd_reqs (states s ! (iw mod NUM_LSU_BLOCKS cfg)))"
  shows "lsu_issue_lane cfg iw s = Inr s"
  using assms by (simp add: lsu_issue_lane_def lsu_fence_unlock_def at_vec_def)

lemma lsu_fence_unlock_frame:
  assumes "lsu_fence_unlock iw b s = Inr (Some s1)"
  shows "Inputs s1 = Inputs s \<and> lsu_demux s1 = lsu_demux s \<and> perf_stats s1 = perf_stats s \<and>
         pending_loads s1 = pending_loads s \<and> lsu_log s1 = lsu_log s \<and>
         length (states s1) = length (states s) \<and>
         map pending_rd_reqs (states s1) = map pending_rd_reqs (states s)"
proof (cases "fence_lock (states s ! b)")
  case False
  then show ?thesis using assms by (simp add: lsu_fence_unlock_Inr_iff)
next
  case True
  with assms obtain ft where b: "b < length (states s)"
    and s1: "s1 = s\<lparr>Outputs := (Outputs s)[iw := Outputs s ! iw @ [(ft, 1)]],
                    states := (states s)[b := (states s ! b)\<lparr>fence_lock := False\<rparr>]\<rparr>"
    by (auto simp: lsu_fence_unlock_Inr_iff split: if_splits)
  have "map pending_rd_reqs ((states s)[b := (states s ! b)\<lparr>fence_lock := False\<rparr>]) =
        map pending_rd_reqs (states s)"
    using b by (simp add: map_update list_update_same_conv)
  then show ?thesis by (simp add: s1)
qed

subsection \<open>LsuUnit: fences\<close>

lemma lsu_frame_refl: "lsu_frame iw b s s"
  by (simp add: lsu_frame_def)

lemma lsu_frame_trans: "lsu_frame iw b s s1 \<Longrightarrow> lsu_frame iw b s1 s' \<Longrightarrow> lsu_frame iw b s s'"
  by (simp add: lsu_frame_def)

lemma lsu_fence_unlock_lane_frame:
  assumes "lsu_fence_unlock iw b s = Inr (Some s1)"
  shows "lsu_frame iw b s s1"
  using assms by (auto simp: lsu_fence_unlock_Inr_iff lsu_frame_def split: if_splits)

lemma lsu_issue_input_frame:
  assumes "lsu_issue_input cfg iw b s = Inr s'"
  shows "lsu_frame iw b s s'"
proof -
  from assms have dims: "b < length (states s)" "iw < length (Inputs s)"
    by (simp_all add: lsu_issue_input_Inr_dims)
  show ?thesis
  proof (cases "Inputs s ! iw")
    case Nil
    then show ?thesis using assms lsu_issue_input_empty [OF dims] by (simp add: lsu_frame_refl)
  next
    case (Cons trace rest)
    show ?thesis
    proof (cases "lsu_type trace")
      case LOAD
      show ?thesis
      proof (cases "ht_full (pending_rd_reqs (states s ! b))")
        case True
        then show ?thesis
          using assms lsu_issue_input_stall [OF dims Cons LOAD] by (auto simp: lsu_frame_def)
      next
        case False
        then show ?thesis
          using assms unfolding lsu_issue_input_load [OF dims Cons LOAD False]
          by (auto simp: bindE_Inr_iff lsu_issued_load_def lsu_frame_def split: if_splits)
      qed
    next
      case STORE
      then show ?thesis
        using assms unfolding lsu_issue_input_store [OF dims Cons STORE]
        by (auto simp: bindE_Inr_iff lsu_issued_store_def lsu_frame_def split: if_splits)
    next
      case FENCE
      then show ?thesis
        using assms lsu_issue_input_fence [OF dims Cons] by (auto simp: lsu_frame_def)
    qed
  qed
qed

lemma lsu_issue_lane_frame:
  assumes "lsu_issue_lane cfg iw s = Inr s'"
  shows "lsu_frame iw (iw mod NUM_LSU_BLOCKS cfg) s s'"
proof -
  from assms obtain r where r: "lsu_fence_unlock iw (iw mod NUM_LSU_BLOCKS cfg) s = Inr r"
    and c: "case r of None \<Rightarrow> s' = s
         | Some s1 \<Rightarrow> lsu_issue_input cfg iw (iw mod NUM_LSU_BLOCKS cfg) s1 = Inr s'"
    by (auto simp: lsu_issue_lane_Inr_iff)
  show ?thesis
  proof (cases r)
    case None
    then show ?thesis using c by (simp add: lsu_frame_refl)
  next
    case (Some s1)
    then have "lsu_fence_unlock iw (iw mod NUM_LSU_BLOCKS cfg) s = Inr (Some s1)"
      and "lsu_issue_input cfg iw (iw mod NUM_LSU_BLOCKS cfg) s1 = Inr s'"
      using c r by simp_all
    then show ?thesis
      using lsu_fence_unlock_lane_frame lsu_issue_input_frame lsu_frame_trans by blast
  qed
qed

lemma lsu_issue_lane_bank_untouched:
  assumes "0 < NUM_LSU_BLOCKS cfg" "b < length (states s)"
    and "fence_lock (states s ! b)" "\<not> ht_empty (pending_rd_reqs (states s ! b))"
    and "lsu_issue_lane cfg iw s = Inr s'"
  shows "lsu_bank_untouched cfg b s s'"
proof (cases "iw mod NUM_LSU_BLOCKS cfg = b")
  case True
  then have "lsu_issue_lane cfg iw s = Inr s"
    using lsu_issue_lane_locked [of cfg iw s] assms(1-4) by simp
  then show ?thesis using assms(5) by (simp add: lsu_bank_untouched_def)
next
  case False
  from lsu_issue_lane_frame [OF assms(5)] False show ?thesis
    by (auto simp: lsu_frame_def lsu_bank_untouched_def)
qed

lemma lsu_issue_loop_bank_untouched:
  assumes nb: "0 < NUM_LSU_BLOCKS cfg" and b: "b < length (states s)"
    and lock: "fence_lock (states s ! b)" "\<not> ht_empty (pending_rd_reqs (states s ! b))"
    and run: "for_each lanes (lsu_issue_lane cfg) s = Inr s'"
  shows "lsu_bank_untouched cfg b s s'"
proof -
  have "lsu_bank_untouched cfg b s s"
    by (simp add: lsu_bank_untouched_def)
  with run show ?thesis
  proof (rule for_each_preserves [where P = "lsu_bank_untouched cfg b s", rotated])
    fix iw t t'
    assume step: "lsu_issue_lane cfg iw t = Inr t'" and inv: "lsu_bank_untouched cfg b s t"
    from inv have "b < length (states t)" "fence_lock (states t ! b)"
        "\<not> ht_empty (pending_rd_reqs (states t ! b))"
      using b lock by (simp_all add: lsu_bank_untouched_def)
    from lsu_issue_lane_bank_untouched [OF nb this step] inv
    show "lsu_bank_untouched cfg b s t'"
      by (simp add: lsu_bank_untouched_def)
  qed
qed

lemma lsu_rsp_block_fence_frame:
  assumes "lsu_rsp_block cfg b s = Inr s'"
  shows "Inputs s' = Inputs s \<and> map fence_lock (states s') = map fence_lock (states s) \<and>
         map fence_trace (states s') = map fence_trace (states s) \<and>
         map demux_ReqIn (lsu_demux s') = map demux_ReqIn (lsu_demux s)"
proof (cases "demux_RspIn (lsu_demux s ! b)")
  case Nil
  then show ?thesis using assms by (simp add: lsu_rsp_block_Inr_iff)
next
  case (Cons rsp rsps)
  with assms obtain state' outs' where b: "b < length (states s)" "b < length (lsu_demux s)"
    and a: "lsu_absorb cfg rsp (states s ! b) (Outputs s) = Inr (state', outs')"
    and s': "s' = s\<lparr>Outputs := outs',
                     states := (states s)[b := state'],
                     pending_loads := pending_loads s - of_nat (bv_count (rsp_mask rsp)),
                     lsu_demux := (lsu_demux s)[b := (lsu_demux s ! b)\<lparr>demux_RspIn := rsps\<rparr>]\<rparr>"
    by (auto simp: lsu_rsp_block_Inr_iff)
  from a have "fence_lock state' = fence_lock (states s ! b)"
      "fence_trace state' = fence_trace (states s ! b)"
    by (auto simp: lsu_absorb_Inr_iff split: if_splits)
  then show ?thesis
    using b by (simp add: s' map_update list_update_same_conv)
qed


lemma lsu_rsp_loop_fence_frame:
  assumes "for_each bs (lsu_rsp_block cfg) s = Inr s1"
  shows "Inputs s1 = Inputs s \<and> map fence_lock (states s1) = map fence_lock (states s) \<and>
         map fence_trace (states s1) = map fence_trace (states s) \<and>
         map demux_ReqIn (lsu_demux s1) = map demux_ReqIn (lsu_demux s)"
proof -
  let ?P = "\<lambda>t. Inputs t = Inputs s \<and> map fence_lock (states t) = map fence_lock (states s) \<and>
         map fence_trace (states t) = map fence_trace (states s) \<and>
         map demux_ReqIn (lsu_demux t) = map demux_ReqIn (lsu_demux s)"
  have "?P s" by simp
  with assms show ?thesis
    by (rule for_each_preserves [where P = ?P, rotated]) (use lsu_rsp_block_fence_frame in metis)
qed

lemma lsu_issue_lane_unlock:
  assumes "0 < NUM_LSU_BLOCKS cfg" "iw mod NUM_LSU_BLOCKS cfg = b" "b < length (states s)"
    and "fence_lock (states s ! b)" "ht_empty (pending_rd_reqs (states s ! b))"
    and "fence_trace (states s ! b) = Some ft" "iw < length (Outputs s)"
  shows "lsu_issue_lane cfg iw s =
           lsu_issue_input cfg iw b
             (s\<lparr>Outputs := (Outputs s)[iw := Outputs s ! iw @ [(ft, 1)]],
                states := (states s)[b := (states s ! b)\<lparr>fence_lock := False\<rparr>]\<rparr>)"
  using assms
  by (simp add: lsu_issue_lane_def lsu_fence_unlock_def at_vec_def push_at_def port_push_def)

lemma lsu_issue_input_length:
  assumes "lsu_issue_input cfg iw b s = Inr s'"
  shows "length (Inputs s') = length (Inputs s)"
proof -
  from assms have dims: "b < length (states s)" "iw < length (Inputs s)"
    by (simp_all add: lsu_issue_input_Inr_dims)
  show ?thesis
  proof (cases "Inputs s ! iw")
    case Nil
    then show ?thesis using assms lsu_issue_input_empty [OF dims] by simp
  next
    case (Cons trace rest)
    show ?thesis
    proof (cases "lsu_type trace")
      case LOAD
      show ?thesis
      proof (cases "ht_full (pending_rd_reqs (states s ! b))")
        case True
        then show ?thesis
          using assms lsu_issue_input_stall [OF dims Cons LOAD] by auto
      next
        case False
        then show ?thesis
          using assms unfolding lsu_issue_input_load [OF dims Cons LOAD False]
          by (auto simp: bindE_Inr_iff lsu_issued_load_def split: if_splits)
      qed
    next
      case STORE
      then show ?thesis
        using assms unfolding lsu_issue_input_store [OF dims Cons STORE]
        by (auto simp: bindE_Inr_iff lsu_issued_store_def split: if_splits)
    next
      case FENCE
      then show ?thesis
        using assms lsu_issue_input_fence [OF dims Cons] by auto
    qed
  qed
qed

lemma lsu_issue_lane_length:
  assumes "lsu_issue_lane cfg iw s = Inr s'"
  shows "length (Inputs s') = length (Inputs s)"
proof -
  from assms obtain r where r: "lsu_fence_unlock iw (iw mod NUM_LSU_BLOCKS cfg) s = Inr r"
    and c: "case r of None \<Rightarrow> s' = s
         | Some s1 \<Rightarrow> lsu_issue_input cfg iw (iw mod NUM_LSU_BLOCKS cfg) s1 = Inr s'"
    by (auto simp: lsu_issue_lane_Inr_iff)
  show ?thesis
  proof (cases r)
    case None
    then show ?thesis using c by simp
  next
    case (Some s1)
    then have "lsu_fence_unlock iw (iw mod NUM_LSU_BLOCKS cfg) s = Inr (Some s1)"
      and "lsu_issue_input cfg iw (iw mod NUM_LSU_BLOCKS cfg) s1 = Inr s'"
      using c r by simp_all
    then show ?thesis
      using lsu_fence_unlock_frame lsu_issue_input_length by metis
  qed
qed

lemma lsu_issue_loop_length:
  assumes "for_each lanes (lsu_issue_lane cfg) s = Inr s'"
  shows "length (Inputs s') = length (Inputs s)"
proof -
  have "length (Inputs s) = length (Inputs s)" by simp
  with assms show ?thesis
    by (rule for_each_preserves [where P = "\<lambda>t. length (Inputs t) = length (Inputs s)", rotated])
       (simp add: lsu_issue_lane_length)
qed

lemma lsu_fenced_run_held:
  assumes "lsu_fenced_run cfg b s s'" and nb: "0 < NUM_LSU_BLOCKS cfg"
    and b: "b < length (states s)" and lock: "fence_lock (states s ! b)"
  shows "lsu_fence_held cfg b s s'"
  using assms(1)
proof (induction rule: lsu_fenced_run.induct)
  case start
  show ?case using lock by (simp add: lsu_fence_held_def)
next
  case (env t t')
  from env.IH have h: "length (Inputs t) = length (Inputs s)"
    "\<forall>iw<length (Inputs s). iw mod NUM_LSU_BLOCKS cfg = b \<longrightarrow> prefix (Inputs s ! iw) (Inputs t ! iw)"
    by (simp_all add: lsu_fence_held_def)
  have "\<forall>iw<length (Inputs s). iw mod NUM_LSU_BLOCKS cfg = b \<longrightarrow> prefix (Inputs s ! iw) (Inputs t' ! iw)"
    using h env.hyps(4) by (metis prefix_order.order_trans)
  then show ?case using env.IH env.hyps(2,3) by (simp add: lsu_fence_held_def)
next
  case (tick t t1 t')
  from tick.IH have h: "length (states t) = length (states s)" "length (Inputs t) = length (Inputs s)"
    "fence_lock (states t ! b)" "fence_trace (states t ! b) = fence_trace (states s ! b)"
    "\<forall>iw<length (Inputs s). iw mod NUM_LSU_BLOCKS cfg = b \<longrightarrow> prefix (Inputs s ! iw) (Inputs t ! iw)"
    by (simp_all add: lsu_fence_held_def)
  from lsu_rsp_loop_fence_frame [OF tick.hyps(2) [unfolded lsu_rsp_loop_def]]
  have fr: "Inputs t1 = Inputs t" "map fence_lock (states t1) = map fence_lock (states t)"
      "map fence_trace (states t1) = map fence_trace (states t)"
    by simp_all
  from fr(2) have len: "length (states t1) = length (states t)" by (rule map_eq_imp_length_eq)
  have bt: "b < length (states t)" using b h(1) by simp
  have lk: "fence_lock (states t1 ! b)"
    using fr(2) bt len h(3) by (metis nth_map)
  have ft: "fence_trace (states t1 ! b) = fence_trace (states t ! b)"
    using fr(3) bt len by (metis nth_map)
  have un: "lsu_bank_untouched cfg b t1 t'"
    using lsu_issue_loop_bank_untouched [OF nb _ lk tick.hyps(3) tick.hyps(4) [unfolded lsu_issue_loop_def]]
      bt len by simp
  have il: "length (Inputs t') = length (Inputs t1)"
    using lsu_issue_loop_length [OF tick.hyps(4) [unfolded lsu_issue_loop_def]] .
  from un have "states t' ! b = states t1 ! b" "length (states t') = length (states t1)"
    and "\<forall>iw. iw mod NUM_LSU_BLOCKS cfg = b \<longrightarrow> Inputs t' ! iw = Inputs t1 ! iw"
    by (simp_all add: lsu_bank_untouched_def)
  then show ?case
    using h lk ft len il fr(1) by (simp add: lsu_fence_held_def)
qed




subsection \<open>LsuUnit: a load stalled on a full pending table\<close>

lemma LsuUnit_tick_at:
  assumes "iw < ISSUE_WIDTH cfg"
  shows "LsuUnit_tick cfg s = Inr s' \<longleftrightarrow> (\<exists>s1 sa sb. lsu_tick_at cfg iw s s1 sa sb s')"
proof -
  have "[0..<ISSUE_WIDTH cfg] = [0..<iw] @ [iw] @ [Suc iw..<ISSUE_WIDTH cfg]"
    using assms upt_add_eq_append [of 0 iw "ISSUE_WIDTH cfg - iw"]
    by (simp add: upt_conv_Cons)
  then have "lsu_issue_loop cfg t =
      bindE (for_each [0..<iw] (lsu_issue_lane cfg) t) (\<lambda>sa.
        bindE (lsu_issue_lane cfg iw sa) (for_each [Suc iw..<ISSUE_WIDTH cfg] (lsu_issue_lane cfg)))" for t
    unfolding lsu_issue_loop_def
    by (simp add: for_each_append bindE_def split: sum.splits)
  then show ?thesis
    by (auto simp: LsuUnit_tick_def lsu_tick_at_def bindE_Inr_iff)
qed

lemma lsu_issue_input_full_table:
  assumes "lsu_issue_input cfg iw b s = Inr s'" "ht_full (pending_rd_reqs (states s ! b))"
  shows "pending_rd_reqs (states s' ! b) = pending_rd_reqs (states s ! b)"
proof -
  from assms have dims: "b < length (states s)" "iw < length (Inputs s)"
    by (simp_all add: lsu_issue_input_Inr_dims)
  show ?thesis
  proof (cases "Inputs s ! iw")
    case Nil
    then show ?thesis using assms lsu_issue_input_empty [OF dims] by simp
  next
    case (Cons trace rest)
    show ?thesis
    proof (cases "lsu_type trace")
      case LOAD
      then show ?thesis
        using assms lsu_issue_input_stall [OF dims Cons LOAD] by auto
    next
      case STORE
      then show ?thesis
        using assms(1) unfolding lsu_issue_input_store [OF dims Cons STORE]
        by (auto simp: bindE_Inr_iff lsu_issued_store_def split: if_splits)
    next
      case FENCE
      then show ?thesis
        using assms dims lsu_issue_input_fence [OF dims Cons] by auto
    qed
  qed
qed

lemma lsu_issue_lane_full_table:
  assumes "lsu_issue_lane cfg j s = Inr s'" "b < length (states s)"
    and "ht_full (pending_rd_reqs (states s ! b))"
  shows "pending_rd_reqs (states s' ! b) = pending_rd_reqs (states s ! b) \<and>
         length (states s') = length (states s)"
proof -
  note fr = lsu_issue_lane_frame [OF assms(1)]
  then have len: "length (states s') = length (states s)" by (simp add: lsu_frame_def)
  show ?thesis
  proof (cases "j mod NUM_LSU_BLOCKS cfg = b")
    case False
    then show ?thesis using fr len by (simp add: lsu_frame_def)
  next
    case True
    from assms(1) obtain r where r: "lsu_fence_unlock j b s = Inr r"
      and c: "case r of None \<Rightarrow> s' = s | Some s1 \<Rightarrow> lsu_issue_input cfg j b s1 = Inr s'"
      unfolding True [symmetric] by (auto simp: lsu_issue_lane_Inr_iff)
    show ?thesis
    proof (cases r)
      case None
      then show ?thesis using c by simp
    next
      case (Some s1)
      note u = lsu_fence_unlock_frame [OF r [unfolded Some]]
      have eq: "pending_rd_reqs (states s1 ! b) = pending_rd_reqs (states s ! b)"
        using u assms(2) by (metis nth_map)
      with assms(3) have "ht_full (pending_rd_reqs (states s1 ! b))" by simp
      with c Some have "pending_rd_reqs (states s' ! b) = pending_rd_reqs (states s1 ! b)"
        using lsu_issue_input_full_table by simp
      then show ?thesis using eq len by simp
    qed
  qed
qed

lemma lsu_issue_lanes_full_table:
  assumes run: "for_each lanes (lsu_issue_lane cfg) s = Inr s'" and b: "b < length (states s)"
    and full: "ht_full (pending_rd_reqs (states s ! b))" and iw: "iw \<notin> set lanes"
  shows "pending_rd_reqs (states s' ! b) = pending_rd_reqs (states s ! b) \<and>
         length (states s') = length (states s) \<and> Inputs s' ! iw = Inputs s ! iw"
proof -
  let ?P = "\<lambda>t. pending_rd_reqs (states t ! b) = pending_rd_reqs (states s ! b) \<and>
         length (states t) = length (states s) \<and> Inputs t ! iw = Inputs s ! iw"
  have "?P s" by simp
  with run show ?thesis
  proof (rule for_each_preserves [where P = ?P, rotated])
    fix j t t'
    assume j: "j \<in> set lanes" and step: "lsu_issue_lane cfg j t = Inr t'" and inv: "?P t"
    from inv have "b < length (states t)" "ht_full (pending_rd_reqs (states t ! b))"
      using b full by simp_all
    note ft = lsu_issue_lane_full_table [OF step this]
    have "j \<noteq> iw" using j iw by auto
    with lsu_issue_lane_frame [OF step] have "Inputs t' ! iw = Inputs t ! iw"
      by (simp add: lsu_frame_def)
    with ft inv show "?P t'" by simp
  qed
qed

lemma lsu_issue_lane_stall:
  assumes nb: "0 < NUM_LSU_BLOCKS cfg" and b: "b = iw mod NUM_LSU_BLOCKS cfg"
    and dims: "b < length (states s)" "iw < length (Inputs s)"
    and head: "Inputs s ! iw = trace # rest" and ld: "lsu_type trace = LOAD"
    and full: "ht_full (pending_rd_reqs (states s ! b))"
    and run: "lsu_issue_lane cfg iw s = Inr s'"
  shows "(\<exists>l. Inputs s' ! iw = trace\<lparr>log_once_latch := l\<rparr> # rest \<and>
              (log_once_latch trace \<longrightarrow> l) \<and> (lsu_log s' \<noteq> lsu_log s \<longrightarrow> l)) \<and>
         lsu_demux s' = lsu_demux s \<and>
         map pending_rd_reqs (states s') = map pending_rd_reqs (states s) \<and>
         perf_stats s' = perf_stats s \<and> pending_loads s' = pending_loads s \<and>
         (lsu_log s' = lsu_log s \<or>
          \<not> log_once_latch trace \<and>
          lsu_log s' = lsu_log s @ [Queue_full (trace\<lparr>log_once_latch := True\<rparr>)]) \<and>
         (\<not> ht_empty (pending_rd_reqs (states s ! b)) \<longrightarrow>
            Outputs s' = Outputs s \<and> states s' = states s)"
proof -
  from run obtain r where r: "lsu_fence_unlock iw b s = Inr r"
    and c: "case r of None \<Rightarrow> s' = s | Some s1 \<Rightarrow> lsu_issue_input cfg iw b s1 = Inr s'"
    unfolding b by (auto simp: lsu_issue_lane_Inr_iff)
  show ?thesis
  proof (cases r)
    case None
    then have "s' = s" using c by simp
    moreover have "trace = trace\<lparr>log_once_latch := log_once_latch trace\<rparr>" by simp
    ultimately show ?thesis using head by metis
  next
    case (Some s1)
    note fr = lsu_fence_unlock_frame [OF r [unfolded Some]]
    have d1: "b < length (states s1)" "iw < length (Inputs s1)" "Inputs s1 ! iw = trace # rest"
      using fr dims head by simp_all
    have "pending_rd_reqs (states s1 ! b) = pending_rd_reqs (states s ! b)"
      using fr dims by (metis nth_map)
    then have full1: "ht_full (pending_rd_reqs (states s1 ! b))" using full by simp
    have s': "s' = s1\<lparr>Inputs := (Inputs s1)[iw := trace\<lparr>log_once_latch := True\<rparr> # rest],
                   lsu_log := (if \<not> log_once_latch trace
                               then lsu_log s1 @ [Queue_full (trace\<lparr>log_once_latch := True\<rparr>)]
                               else lsu_log s1)\<rparr>"
      using c Some lsu_issue_input_stall [OF d1 ld full1, of cfg] by simp
    have ne: "s1 = s" if "\<not> ht_empty (pending_rd_reqs (states s ! b))"
      using r that unfolding Some by (auto simp: lsu_fence_unlock_Inr_iff split: if_splits)
    have "Inputs s' ! iw = trace\<lparr>log_once_latch := True\<rparr> # rest"
      using s' d1 by simp
    then have 1: "\<exists>l. Inputs s' ! iw = trace\<lparr>log_once_latch := l\<rparr> # rest \<and>
              (log_once_latch trace \<longrightarrow> l) \<and> (lsu_log s' \<noteq> lsu_log s \<longrightarrow> l)"
      by blast
    have 2: "lsu_demux s' = lsu_demux s \<and>
         map pending_rd_reqs (states s') = map pending_rd_reqs (states s) \<and>
         perf_stats s' = perf_stats s \<and> pending_loads s' = pending_loads s \<and>
         (lsu_log s' = lsu_log s \<or>
          \<not> log_once_latch trace \<and>
          lsu_log s' = lsu_log s @ [Queue_full (trace\<lparr>log_once_latch := True\<rparr>)])"
      using fr by (simp add: s')
    have 3: "\<not> ht_empty (pending_rd_reqs (states s ! b)) \<longrightarrow>
            Outputs s' = Outputs s \<and> states s' = states s"
      using ne by (auto simp: s')
    from 1 2 3 show ?thesis by blast
  qed
qed


lemma lsu_tick_at_stalled:
  assumes nb: "0 < NUM_LSU_BLOCKS cfg" and b: "b = iw mod NUM_LSU_BLOCKS cfg"
    and dims: "b < length (states s)" "iw < length (Inputs s)"
    and head: "Inputs s ! iw = trace # rest"
    and at: "lsu_tick_at cfg iw s s1 sa sb s'"
    and full: "ht_full (pending_rd_reqs (states s1 ! b))"
  shows "Inputs sa ! iw = trace # rest \<and>
         pending_rd_reqs (states sa ! b) = pending_rd_reqs (states s1 ! b) \<and>
         length (states sa) = length (states s) \<and> length (Inputs sa) = length (Inputs s) \<and>
         Inputs s' ! iw = Inputs sb ! iw \<and>
         pending_rd_reqs (states s' ! b) = pending_rd_reqs (states s1 ! b) \<and>
         length (states s') = length (states s) \<and> length (Inputs s') = length (Inputs s)"
proof -
  from at have rsp: "lsu_rsp_loop cfg (s\<lparr>perf_stats := (perf_stats s)\<lparr>load_latency :=
        load_latency (perf_stats s) + pending_loads s\<rparr>\<rparr>) = Inr s1"
    and before: "for_each [0..<iw] (lsu_issue_lane cfg) s1 = Inr sa"
    and lane: "lsu_issue_lane cfg iw sa = Inr sb"
    and after: "for_each [Suc iw..<ISSUE_WIDTH cfg] (lsu_issue_lane cfg) sb = Inr s'"
    by (simp_all add: lsu_tick_at_def)
  from lsu_rsp_loop_fence_frame [OF rsp [unfolded lsu_rsp_loop_def]]
  have in1: "Inputs s1 = Inputs s" and "map fence_lock (states s1) = map fence_lock (states s)"
    by simp_all
  then have len1: "length (states s1) = length (states s)" by (metis length_map)
  have b1: "b < length (states s1)" using dims(1) len1 by simp
  have "iw \<notin> set [0..<iw]" by simp
  from lsu_issue_lanes_full_table [OF before b1 full this]
  have a: "pending_rd_reqs (states sa ! b) = pending_rd_reqs (states s1 ! b)"
      "length (states sa) = length (states s1)" "Inputs sa ! iw = Inputs s1 ! iw"
    by simp_all
  have la: "length (Inputs sa) = length (Inputs s1)"
    using lsu_issue_loop_length [OF before] .
  have ba: "b < length (states sa)" and fa: "ht_full (pending_rd_reqs (states sa ! b))"
    using a b1 full by simp_all
  from lsu_issue_lane_full_table [OF lane ba fa]
  have l: "pending_rd_reqs (states sb ! b) = pending_rd_reqs (states sa ! b)"
      "length (states sb) = length (states sa)"
    by simp_all
  have ll: "length (Inputs sb) = length (Inputs sa)"
    using lsu_issue_lane_length [OF lane] .
  have bb: "b < length (states sb)" and fb: "ht_full (pending_rd_reqs (states sb ! b))"
    using l ba fa by simp_all
  have "iw \<notin> set [Suc iw..<ISSUE_WIDTH cfg]" by simp
  from lsu_issue_lanes_full_table [OF after bb fb this]
  have c: "pending_rd_reqs (states s' ! b) = pending_rd_reqs (states sb ! b)"
      "length (states s') = length (states sb)" "Inputs s' ! iw = Inputs sb ! iw"
    by simp_all
  have lc: "length (Inputs s') = length (Inputs sb)"
    using lsu_issue_loop_length [OF after] .
  show ?thesis
    using in1 len1 a la l ll c lc head by simp
qed

lemma lsu_stall_run_once:
  assumes run: "lsu_stall_run cfg iw s n s'"
    and nb: "0 < NUM_LSU_BLOCKS cfg" and b: "b = iw mod NUM_LSU_BLOCKS cfg"
    and dims: "b < length (states s)" "iw < length (Inputs s)"
    and head: "Inputs s ! iw = trace # rest" and ld: "lsu_type trace = LOAD"
  shows "length (Inputs s') = length (Inputs s) \<and> length (states s') = length (states s) \<and>
         n \<le> 1 \<and> (log_once_latch trace \<longrightarrow> n = 0) \<and>
         (\<exists>l more. Inputs s' ! iw = trace\<lparr>log_once_latch := l\<rparr> # rest @ more \<and>
            (log_once_latch trace \<longrightarrow> l) \<and> (n = 1 \<longrightarrow> l))"
  using run
proof (induction rule: lsu_stall_run.induct)
  case start
  have "Inputs s ! iw = trace\<lparr>log_once_latch := log_once_latch trace\<rparr> # rest @ [] \<and>
      (log_once_latch trace \<longrightarrow> log_once_latch trace) \<and> ((0::nat) = 1 \<longrightarrow> log_once_latch trace)"
    using head by simp
  then have "\<exists>l more. Inputs s ! iw = trace\<lparr>log_once_latch := l\<rparr> # rest @ more \<and>
      (log_once_latch trace \<longrightarrow> l) \<and> ((0::nat) = 1 \<longrightarrow> l)"
    by blast
  then show ?case by simp
next
  case (env n t t')
  from env.IH obtain l more where h: "length (Inputs t) = length (Inputs s)"
      "length (states t) = length (states s)" "n \<le> 1" "log_once_latch trace \<longrightarrow> n = 0"
      "Inputs t ! iw = trace\<lparr>log_once_latch := l\<rparr> # rest @ more"
      "log_once_latch trace \<longrightarrow> l" "n = 1 \<longrightarrow> l"
    by blast
  from env.hyps(4) h(1) dims(2) have "prefix (Inputs t ! iw) (Inputs t' ! iw)" by simp
  then obtain zs where "Inputs t' ! iw = Inputs t ! iw @ zs" by (auto simp: prefix_def)
  then have "Inputs t' ! iw = trace\<lparr>log_once_latch := l\<rparr> # rest @ (more @ zs) \<and>
      (log_once_latch trace \<longrightarrow> l) \<and> (n = 1 \<longrightarrow> l)"
    using h(5,6,7) by simp
  then have "\<exists>l more. Inputs t' ! iw = trace\<lparr>log_once_latch := l\<rparr> # rest @ more \<and>
      (log_once_latch trace \<longrightarrow> l) \<and> (n = 1 \<longrightarrow> l)"
    by blast
  then show ?case using h(1-4) env.hyps(2,3) by simp
next
  case (tick n t t' t1 ta tb)
  from tick.IH obtain l more where h: "length (Inputs t) = length (Inputs s)"
      "length (states t) = length (states s)" "n \<le> 1" "log_once_latch trace \<longrightarrow> n = 0"
      "Inputs t ! iw = trace\<lparr>log_once_latch := l\<rparr> # rest @ more"
      "log_once_latch trace \<longrightarrow> l" "n = 1 \<longrightarrow> l"
    by blast
  let ?tr = "trace\<lparr>log_once_latch := l\<rparr>"
  have dt: "b < length (states t)" "iw < length (Inputs t)" using dims h(1,2) by simp_all
  have full: "ht_full (pending_rd_reqs (states t1 ! b))" using tick.hyps(5) b by simp
  from lsu_tick_at_stalled [OF nb b dt h(5) tick.hyps(4) full]
  have a: "Inputs ta ! iw = ?tr # rest @ more"
      "pending_rd_reqs (states ta ! b) = pending_rd_reqs (states t1 ! b)"
      "length (states ta) = length (states t)" "length (Inputs ta) = length (Inputs t)"
      "Inputs t' ! iw = Inputs tb ! iw"
      "length (states t') = length (states t)" "length (Inputs t') = length (Inputs t)"
    by simp_all
  from tick.hyps(4) have lane: "lsu_issue_lane cfg iw ta = Inr tb" by (simp add: lsu_tick_at_def)
  have da: "b < length (states ta)" "iw < length (Inputs ta)" using dt a(3,4) by simp_all
  have lda: "lsu_type ?tr = LOAD" using ld by simp
  have fa: "ht_full (pending_rd_reqs (states ta ! b))" using full a(2) by simp
  from lsu_issue_lane_stall [OF nb b da a(1) lda fa lane]
  obtain l' where st: "Inputs tb ! iw = ?tr\<lparr>log_once_latch := l'\<rparr> # rest @ more"
      "log_once_latch ?tr \<longrightarrow> l'" "lsu_log tb \<noteq> lsu_log ta \<longrightarrow> l'"
      "lsu_log tb = lsu_log ta \<or>
       \<not> log_once_latch ?tr \<and> lsu_log tb = lsu_log ta @ [Queue_full (?tr\<lparr>log_once_latch := True\<rparr>)]"
    by blast
  let ?g = "length (lsu_log tb) - length (lsu_log ta)"
  from st(4) have g: "?g = 0 \<or> ?g = 1 \<and> \<not> l \<and> lsu_log tb \<noteq> lsu_log ta" by auto
  have hd': "Inputs t' ! iw = trace\<lparr>log_once_latch := l'\<rparr> # rest @ more"
    using a(5) st(1) by simp
  have l1: "l \<longrightarrow> l'" using st(2) by simp
  have n1: "n + ?g \<le> 1" using g h(3,7) by auto
  have n2: "log_once_latch trace \<longrightarrow> n + ?g = 0" using g h(4,6) by auto
  have n3: "n + ?g = 1 \<longrightarrow> l'" using g h(7) l1 st(3) by auto
  have n4: "log_once_latch trace \<longrightarrow> l'" using h(6) l1 by simp
  have "\<exists>l more. Inputs t' ! iw = trace\<lparr>log_once_latch := l\<rparr> # rest @ more \<and>
      (log_once_latch trace \<longrightarrow> l) \<and> (n + ?g = 1 \<longrightarrow> l)"
    using hd' n3 n4 by blast
  then show ?case
    using a(6,7) h(1,2) n1 n2 by simp
qed

text \<open>
  C8, as the code has it. Both slots of the pending table are taken when the tick
  starts and a load is at the head of lane 0. With half of a response waiting, the tick
  keeps the load at the head of its queue, but it adds the eight outstanding lanes to
  \<^verbatim>\<open>load_latency\<close> (10 to 18) and takes the two answered lanes off \<^verbatim>\<open>pending_loads_\<close> (8 to
  6). With a whole response waiting, the response loop frees slot 0 and the same tick
  pops the load, allocates the slot for it and sends its request.
\<close>

theorem lsu_load_stall_counterexample:
  "LsuUnit_tick scenario_cfg scenario_lsu_full =
     Inr (scenario_lsu_full\<lparr>
       Inputs := [[scenario_trace\<lparr>uuid := 8, log_once_latch := True\<rparr>], []],
       states := [\<lparr>pending_rd_reqs =
          \<lparr>entries = [(True, scenario_entry\<lparr>entry_mask := [False, False, True, True]\<rparr>),
                      (True, scenario_entry)], ht_size = 2\<rparr>,
          fence_trace = None, fence_lock = False\<rparr>],
       pending_loads := 6,
       perf_stats := \<lparr>load_latency = 18, loads = 4, stores = 0\<rparr>,
       lsu_demux := [\<lparr>demux_ReqIn = [], demux_RspIn = []\<rparr>],
       lsu_log := [Queue_full (scenario_trace\<lparr>uuid := 8, log_once_latch := True\<rparr>)]\<rparr>) \<and>
   LsuUnit_tick scenario_cfg
     (scenario_lsu_full\<lparr>lsu_demux := [\<lparr>demux_ReqIn = [],
         demux_RspIn = [scenario_rsp_lo\<lparr>rsp_mask := [True, True, True, True]\<rparr>]\<rparr>]\<rparr>) =
     Inr (scenario_lsu_full\<lparr>
       Inputs := [[], []],
       Outputs := [[(scenario_trace, 1)], []],
       states := [\<lparr>pending_rd_reqs =
          \<lparr>entries = [(True, \<lparr>entry_trace = scenario_trace\<lparr>uuid := 8\<rparr>,
                               entry_mask = [True, True, True, True]\<rparr>),
                      (True, scenario_entry)], ht_size = 2\<rparr>,
          fence_trace = None, fence_lock = False\<rparr>],
       pending_loads := 8,
       perf_stats := \<lparr>load_latency = 18, loads = 8, stores = 0\<rparr>,
       lsu_demux := [\<lparr>demux_ReqIn = [\<lparr>req_mask = [True, True, True, True],
            req_addrs = [4096, 4100, 4104, 4108], req_write = False, req_tag = 0,
            req_cid = 0, req_uuid = 8\<rparr>], demux_RspIn = []\<rparr>],
       lsu_log := []\<rparr>)"
proof -
  have r4: "replicate 4 x = [x, x, x, x]" for x :: 'a
    by (simp add: eval_nat_numeral)
  show ?thesis
    by (simp add: scenario_lsu_full_def scenario_eval r4)
qed

text \<open>
  C8, amended. A load is at the head of lane \<open>iw\<close>. (i) If the pending table of the
  lane's block is full when the step of the lane runs, the step leaves the trace at
  the head of the queue, only its latch possibly changed and never from set to clear,
  pushes no request, allocates no slot, changes neither the statistics nor
  \<^verbatim>\<open>pending_loads_\<close>, and adds the queue-full message to the log at most once, and only if
  the latch was clear, setting it. (ii) In a whole tick after whose response loop the
  table is still full, the lanes before \<open>iw\<close> leave the trace and the table as they are,
  the step of lane \<open>iw\<close> is as in (i), and at the end of the tick the trace is still at
  the head of the queue and the table of the block is the one the response loop left.
  (iii) Over a stall episode of any number of such ticks, with the front end appending
  to the queues in between, the steps of lane \<open>iw\<close> add at most one message to the log,
  and none if the latch was set at the start; the trace stays at the head of its queue
  and its latch, once set, stays set. (iv) Once the table has room and the block is not
  fence-locked, the step issues the load, and the trace kept in the pending table has
  its latch reset.
\<close>

theorem lsu_load_stall_debounced:
  assumes nb: "0 < NUM_LSU_BLOCKS cfg" and b: "b = iw mod NUM_LSU_BLOCKS cfg"
    and dims: "b < length (states s)" "iw < length (Inputs s)"
    and head: "Inputs s ! iw = trace # rest" and ld: "lsu_type trace = LOAD"
  shows "(ht_full (pending_rd_reqs (states s ! b)) \<longrightarrow>
            (\<forall>s'. lsu_issue_lane cfg iw s = Inr s' \<longrightarrow>
               (\<exists>l. Inputs s' ! iw = trace\<lparr>log_once_latch := l\<rparr> # rest \<and>
                    (log_once_latch trace \<longrightarrow> l) \<and> (lsu_log s' \<noteq> lsu_log s \<longrightarrow> l)) \<and>
               lsu_demux s' = lsu_demux s \<and>
               map pending_rd_reqs (states s') = map pending_rd_reqs (states s) \<and>
               perf_stats s' = perf_stats s \<and> pending_loads s' = pending_loads s \<and>
               (lsu_log s' = lsu_log s \<or>
                \<not> log_once_latch trace \<and>
                lsu_log s' = lsu_log s @ [Queue_full (trace\<lparr>log_once_latch := True\<rparr>)]) \<and>
               (\<not> ht_empty (pending_rd_reqs (states s ! b)) \<longrightarrow>
                  Outputs s' = Outputs s \<and> states s' = states s))) \<and>
         (\<forall>s'. iw < ISSUE_WIDTH cfg \<and> LsuUnit_tick cfg s = Inr s' \<longrightarrow>
            (\<exists>s1 sa sb. lsu_tick_at cfg iw s s1 sa sb s' \<and>
               (ht_full (pending_rd_reqs (states s1 ! b)) \<longrightarrow>
                  Inputs sa ! iw = trace # rest \<and>
                  pending_rd_reqs (states sa ! b) = pending_rd_reqs (states s1 ! b) \<and>
                  lsu_demux sb = lsu_demux sa \<and> perf_stats sb = perf_stats sa \<and>
                  pending_loads sb = pending_loads sa \<and>
                  (lsu_log sb = lsu_log sa \<or>
                   \<not> log_once_latch trace \<and>
                   lsu_log sb = lsu_log sa @ [Queue_full (trace\<lparr>log_once_latch := True\<rparr>)]) \<and>
                  (\<exists>l. Inputs s' ! iw = trace\<lparr>log_once_latch := l\<rparr> # rest \<and>
                       (log_once_latch trace \<longrightarrow> l) \<and> (lsu_log sb \<noteq> lsu_log sa \<longrightarrow> l)) \<and>
                  pending_rd_reqs (states s' ! b) = pending_rd_reqs (states s1 ! b)))) \<and>
         (\<forall>n s'. lsu_stall_run cfg iw s n s' \<longrightarrow>
            n \<le> 1 \<and> (log_once_latch trace \<longrightarrow> n = 0) \<and>
            (\<exists>l more. Inputs s' ! iw = trace\<lparr>log_once_latch := l\<rparr> # rest @ more \<and>
               (log_once_latch trace \<longrightarrow> l) \<and> (n = 1 \<longrightarrow> l))) \<and>
         (\<not> ht_full (pending_rd_reqs (states s ! b)) \<and> \<not> fence_lock (states s ! b) \<longrightarrow>
            (\<forall>s'. lsu_issue_lane cfg iw s = Inr s' \<longrightarrow>
               Inputs s' ! iw = rest \<and>
               (\<exists>tag m. ht_at (pending_rd_reqs (states s' ! b)) tag =
                  Inr \<lparr>entry_trace = trace\<lparr>log_once_latch := False\<rparr>, entry_mask = m\<rparr>)))"
proof -
  have A: "(\<exists>l. Inputs s' ! iw = trace\<lparr>log_once_latch := l\<rparr> # rest \<and>
                    (log_once_latch trace \<longrightarrow> l) \<and> (lsu_log s' \<noteq> lsu_log s \<longrightarrow> l)) \<and>
               lsu_demux s' = lsu_demux s \<and>
               map pending_rd_reqs (states s') = map pending_rd_reqs (states s) \<and>
               perf_stats s' = perf_stats s \<and> pending_loads s' = pending_loads s \<and>
               (lsu_log s' = lsu_log s \<or>
                \<not> log_once_latch trace \<and>
                lsu_log s' = lsu_log s @ [Queue_full (trace\<lparr>log_once_latch := True\<rparr>)]) \<and>
               (\<not> ht_empty (pending_rd_reqs (states s ! b)) \<longrightarrow>
                  Outputs s' = Outputs s \<and> states s' = states s)"
    if full: "ht_full (pending_rd_reqs (states s ! b))" and run: "lsu_issue_lane cfg iw s = Inr s'"
    for s'
    by (rule lsu_issue_lane_stall [OF nb b dims head ld full run])
  have T: "\<exists>s1 sa sb. lsu_tick_at cfg iw s s1 sa sb s' \<and>
               (ht_full (pending_rd_reqs (states s1 ! b)) \<longrightarrow>
                  Inputs sa ! iw = trace # rest \<and>
                  pending_rd_reqs (states sa ! b) = pending_rd_reqs (states s1 ! b) \<and>
                  lsu_demux sb = lsu_demux sa \<and> perf_stats sb = perf_stats sa \<and>
                  pending_loads sb = pending_loads sa \<and>
                  (lsu_log sb = lsu_log sa \<or>
                   \<not> log_once_latch trace \<and>
                   lsu_log sb = lsu_log sa @ [Queue_full (trace\<lparr>log_once_latch := True\<rparr>)]) \<and>
                  (\<exists>l. Inputs s' ! iw = trace\<lparr>log_once_latch := l\<rparr> # rest \<and>
                       (log_once_latch trace \<longrightarrow> l) \<and> (lsu_log sb \<noteq> lsu_log sa \<longrightarrow> l)) \<and>
                  pending_rd_reqs (states s' ! b) = pending_rd_reqs (states s1 ! b))"
    if run: "iw < ISSUE_WIDTH cfg \<and> LsuUnit_tick cfg s = Inr s'" for s'
  proof -
    from run obtain s1 sa sb where at: "lsu_tick_at cfg iw s s1 sa sb s'"
      using LsuUnit_tick_at [of iw cfg s s'] by blast
    have "Inputs sa ! iw = trace # rest \<and>
                  pending_rd_reqs (states sa ! b) = pending_rd_reqs (states s1 ! b) \<and>
                  lsu_demux sb = lsu_demux sa \<and> perf_stats sb = perf_stats sa \<and>
                  pending_loads sb = pending_loads sa \<and>
                  (lsu_log sb = lsu_log sa \<or>
                   \<not> log_once_latch trace \<and>
                   lsu_log sb = lsu_log sa @ [Queue_full (trace\<lparr>log_once_latch := True\<rparr>)]) \<and>
                  (\<exists>l. Inputs s' ! iw = trace\<lparr>log_once_latch := l\<rparr> # rest \<and>
                       (log_once_latch trace \<longrightarrow> l) \<and> (lsu_log sb \<noteq> lsu_log sa \<longrightarrow> l)) \<and>
                  pending_rd_reqs (states s' ! b) = pending_rd_reqs (states s1 ! b)"
      if full: "ht_full (pending_rd_reqs (states s1 ! b))"
    proof -
      from lsu_tick_at_stalled [OF nb b dims head at full]
      have a: "Inputs sa ! iw = trace # rest"
          "pending_rd_reqs (states sa ! b) = pending_rd_reqs (states s1 ! b)"
          "length (states sa) = length (states s)" "length (Inputs sa) = length (Inputs s)"
          "Inputs s' ! iw = Inputs sb ! iw"
          "pending_rd_reqs (states s' ! b) = pending_rd_reqs (states s1 ! b)"
        by simp_all
      from at have lane: "lsu_issue_lane cfg iw sa = Inr sb" by (simp add: lsu_tick_at_def)
      have da: "b < length (states sa)" "iw < length (Inputs sa)" using dims a(3,4) by simp_all
      have fa: "ht_full (pending_rd_reqs (states sa ! b))" using full a(2) by simp
      from lsu_issue_lane_stall [OF nb b da a(1) ld fa lane] a
      show ?thesis by simp
    qed
    with at show ?thesis by blast
  qed
  have E: "n \<le> 1 \<and> (log_once_latch trace \<longrightarrow> n = 0) \<and>
            (\<exists>l more. Inputs s' ! iw = trace\<lparr>log_once_latch := l\<rparr> # rest @ more \<and>
               (log_once_latch trace \<longrightarrow> l) \<and> (n = 1 \<longrightarrow> l))"
    if "lsu_stall_run cfg iw s n s'" for n s'
    using lsu_stall_run_once [OF that nb b dims head ld] by simp
  have C: "Inputs s' ! iw = rest \<and>
               (\<exists>tag m. ht_at (pending_rd_reqs (states s' ! b)) tag =
                  Inr \<lparr>entry_trace = trace\<lparr>log_once_latch := False\<rparr>, entry_mask = m\<rparr>)"
    if a: "\<not> ht_full (pending_rd_reqs (states s ! b)) \<and> \<not> fence_lock (states s ! b)"
      and run: "lsu_issue_lane cfg iw s = Inr s'" for s'
  proof -
    have "lsu_issue_input cfg iw b s = Inr s'"
      using a run lsu_issue_lane_unlocked [of cfg iw s] nb dims by (simp add: b)
    then obtain req0 tag table where
      al: "ht_allocate (pending_rd_reqs (states s ! b))
            \<lparr>entry_trace = trace\<lparr>log_once_latch := False\<rparr>, entry_mask = req_mask req0\<rparr> = Inr (tag, table)"
      and s': "s' = lsu_issued_load s iw b trace rest req0 tag table"
      unfolding lsu_issue_input_load [OF dims head ld conjunct1 [OF a]]
      by (auto simp: bindE_Inr_iff split: if_splits)
    from al have "ht_at table tag =
        Inr \<lparr>entry_trace = trace\<lparr>log_once_latch := False\<rparr>, entry_mask = req_mask req0\<rparr>"
      by (simp add: ht_allocate_Inr_iff ht_at_Inr_iff)
    then show ?thesis
      using dims by (auto simp: s' lsu_issued_load_def)
  qed
  show ?thesis
    apply (intro conjI)
    subgoal using A by blast
    subgoal using T by blast
    subgoal using E by blast
    subgoal using C by blast
    done
qed

theorem lsu_load_stall_debounced_witness:
  "(\<exists>n s1 s2. LsuUnit_tick scenario_cfg scenario_lsu_full = Inr s1 \<and>
       LsuUnit_tick scenario_cfg s1 = Inr s2 \<and>
       lsu_stall_run scenario_cfg 0 scenario_lsu_full n s2 \<and> n \<le> 1 \<and>
       Inputs s1 ! 0 = [scenario_trace\<lparr>uuid := 8, log_once_latch := True\<rparr>] \<and>
       lsu_log s1 = [Queue_full (scenario_trace\<lparr>uuid := 8, log_once_latch := True\<rparr>)] \<and>
       Inputs s2 ! 0 = [scenario_trace\<lparr>uuid := 8, log_once_latch := True\<rparr>] \<and>
       lsu_log s2 = [Queue_full (scenario_trace\<lparr>uuid := 8, log_once_latch := True\<rparr>)]) \<and>
   (\<exists>s'. lsu_issue_lane scenario_cfg 0 scenario_lsu = Inr s' \<and> Inputs s' ! 0 = [] \<and>
      (\<exists>tag m. ht_at (pending_rd_reqs (states s' ! 0)) tag =
          Inr \<lparr>entry_trace = scenario_trace\<lparr>uuid := 8, log_once_latch := False\<rparr>, entry_mask = m\<rparr>))"
proof -
  let ?F = scenario_lsu_full
  let ?t = "scenario_trace\<lparr>uuid := 8\<rparr>"
  let ?R1 = "?F\<lparr>
       states := [\<lparr>pending_rd_reqs =
          \<lparr>entries = [(True, scenario_entry\<lparr>entry_mask := [False, False, True, True]\<rparr>),
                      (True, scenario_entry)], ht_size = 2\<rparr>,
          fence_trace = None, fence_lock = False\<rparr>],
       pending_loads := 6,
       perf_stats := \<lparr>load_latency = 18, loads = 4, stores = 0\<rparr>,
       lsu_demux := [\<lparr>demux_ReqIn = [], demux_RspIn = []\<rparr>]\<rparr>"
  let ?T1 = "?R1\<lparr>Inputs := [[?t\<lparr>log_once_latch := True\<rparr>], []],
       lsu_log := [Queue_full (?t\<lparr>log_once_latch := True\<rparr>)]\<rparr>"
  let ?R2 = "?T1\<lparr>perf_stats := \<lparr>load_latency = 24, loads = 4, stores = 0\<rparr>\<rparr>"
  have nb: "0 < NUM_LSU_BLOCKS scenario_cfg" and b: "0 = 0 mod NUM_LSU_BLOCKS scenario_cfg"
    and lt: "0 < ISSUE_WIDTH scenario_cfg"
    by (simp_all add: scenario_cfg_def)
  have ld: "lsu_type ?t = LOAD" by (simp add: scenario_trace_def)
  have t1: "LsuUnit_tick scenario_cfg ?F = Inr ?T1"
    by (simp add: scenario_lsu_full_def scenario_eval)
  have t2: "LsuUnit_tick scenario_cfg ?T1 = Inr ?R2"
    by (simp add: scenario_lsu_full_def scenario_eval)
  have r1: "lsu_rsp_loop scenario_cfg (?F\<lparr>perf_stats := (perf_stats ?F)\<lparr>load_latency :=
        load_latency (perf_stats ?F) + pending_loads ?F\<rparr>\<rparr>) = Inr ?R1"
    by (simp add: scenario_lsu_full_def scenario_eval)
  have r2: "lsu_rsp_loop scenario_cfg (?T1\<lparr>perf_stats := (perf_stats ?T1)\<lparr>load_latency :=
        load_latency (perf_stats ?T1) + pending_loads ?T1\<rparr>\<rparr>) = Inr ?R2"
    by (simp add: scenario_lsu_full_def scenario_eval)
  have dF: "0 < length (states ?F)" "0 < length (Inputs ?F)" "Inputs ?F ! 0 = ?t # []"
    by (simp_all add: scenario_lsu_full_def scenario_lsu_def)
  note D = lsu_load_stall_debounced [of scenario_cfg 0 0 ?F ?t "[]", OF nb b dF ld]
  from D [THEN conjunct2, THEN conjunct1, rule_format, of ?T1] lt t1
  obtain s1 sa sb where at1: "lsu_tick_at scenario_cfg 0 ?F s1 sa sb ?T1" by blast
  then have "s1 = ?R1" using r1 by (simp add: lsu_tick_at_def)
  then have f1: "ht_full (pending_rd_reqs (states s1 ! (0 mod NUM_LSU_BLOCKS scenario_cfg)))"
    by (simp add: ht_full_def)
  from LsuUnit_tick_at [OF lt, of ?T1 ?R2] t2
  obtain s1' sa' sb' where at2: "lsu_tick_at scenario_cfg 0 ?T1 s1' sa' sb' ?R2" by blast
  then have "s1' = ?R2" using r2 by (simp add: lsu_tick_at_def)
  then have f2: "ht_full (pending_rd_reqs (states s1' ! (0 mod NUM_LSU_BLOCKS scenario_cfg)))"
    by (simp add: ht_full_def)
  note run1 = lsu_stall_run.tick [OF lsu_stall_run.start lt t1 at1 f1]
  note run2 = lsu_stall_run.tick [OF run1 lt t2 at2 f2]
  from D [THEN conjunct2, THEN conjunct2, THEN conjunct1, rule_format, OF run2]
  have le: "0 + (length (lsu_log sb) - length (lsu_log sa)) +
      (length (lsu_log sb') - length (lsu_log sa')) \<le> 1"
    by simp
  have 1: "\<exists>n s1 s2. LsuUnit_tick scenario_cfg scenario_lsu_full = Inr s1 \<and>
       LsuUnit_tick scenario_cfg s1 = Inr s2 \<and>
       lsu_stall_run scenario_cfg 0 scenario_lsu_full n s2 \<and> n \<le> 1 \<and>
       Inputs s1 ! 0 = [scenario_trace\<lparr>uuid := 8, log_once_latch := True\<rparr>] \<and>
       lsu_log s1 = [Queue_full (scenario_trace\<lparr>uuid := 8, log_once_latch := True\<rparr>)] \<and>
       Inputs s2 ! 0 = [scenario_trace\<lparr>uuid := 8, log_once_latch := True\<rparr>] \<and>
       lsu_log s2 = [Queue_full (scenario_trace\<lparr>uuid := 8, log_once_latch := True\<rparr>)]"
    apply (rule exI [of _ "0 + (length (lsu_log sb) - length (lsu_log sa)) +
      (length (lsu_log sb') - length (lsu_log sa'))"])
    apply (rule exI [of _ ?T1])
    apply (rule exI [of _ ?R2])
    using t1 t2 run2 le by simp
  have free: "\<not> ht_full (pending_rd_reqs (states scenario_lsu ! 0)) \<and>
      \<not> fence_lock (states scenario_lsu ! 0)"
    by (simp add: ht_full_def scenario_lsu_def)
  obtain s' where run: "lsu_issue_lane scenario_cfg 0 scenario_lsu = Inr s'"
    by (simp add: scenario_eval)
  have dS: "0 < length (states scenario_lsu)" "0 < length (Inputs scenario_lsu)"
      "Inputs scenario_lsu ! 0 = ?t # []"
    by (simp_all add: scenario_lsu_def)
  from lsu_load_stall_debounced [of scenario_cfg 0 0 scenario_lsu ?t "[]", OF nb b dS ld] free run
  have 2: "Inputs s' ! 0 = [] \<and>
      (\<exists>tag m. ht_at (pending_rd_reqs (states s' ! 0)) tag =
          Inr \<lparr>entry_trace = ?t\<lparr>log_once_latch := False\<rparr>, entry_mask = m\<rparr>)"
    by blast
  from 1 2 run show ?thesis by blast
qed

subsection \<open>SfuUnit: warp spawn and barrier\<close>



subsection \<open>Mux: round robin\<close>

lemma and_pow2_minus_1: "(x::nat) AND (2 ^ k - 1) = x mod 2 ^ k"
proof -
  have "x AND (2 ^ k - 1) = take_bit k x"
    by (simp only: take_bit_eq_mask mask_eq_exp_minus_1)
  then show ?thesis by (simp only: take_bit_eq_mod)
qed

lemma and_pow2_minus_Suc0: "(x::nat) AND (2 ^ k - Suc 0) = x mod 2 ^ k"
  using and_pow2_minus_1 [of x k] by simp

lemma Mux_tick_backlogged:
  assumes "length (mux_Outputs m) = 1" "length (mux_Inputs m) = 2 ^ k" "mux_num_reqs m = 2 ^ k"
    and "0 < k" "mux_cursors m = [c]" "mux_Inputs m ! (c mod 2 ^ k) = req # rest"
  shows "Mux_tick m =
     Inr (m\<lparr>mux_Outputs := [mux_Outputs m ! 0 @ [(req, mux_delay m)]],
            mux_Inputs := (mux_Inputs m)[c mod 2 ^ k := rest],
            mux_cursors := (if mux_type m = RoundRobin then [c mod 2 ^ k + 1] else [c])\<rparr>)"
proof -
  have R: "(2::nat) ^ k \<noteq> 1" "(0::nat) < 2 ^ k" using assms(4) by simp_all
  have upt: "[0..<2 ^ k] = 0 # [1..<2 ^ k]" using R(2) by (simp add: upt_conv_Cons)
  obtain out0 where outs: "mux_Outputs m = [out0]"
    using assms(1) by (cases "mux_Outputs m") simp_all
  have lt: "\<not> (2::nat) ^ k \<le> c mod 2 ^ k" by (simp add: not_le)
  have cur: "m\<lparr>mux_Outputs := x, mux_Inputs := y\<rparr> = m\<lparr>mux_Outputs := x, mux_Inputs := y, mux_cursors := [c]\<rparr>"
    for x y using assms(5) by simp
  have "mux_scan [0..<2 ^ k] 0 m =
     Inr (m\<lparr>mux_Outputs := [out0 @ [(req, mux_delay m)]],
            mux_Inputs := (mux_Inputs m)[c mod 2 ^ k := rest],
            mux_cursors := (if mux_type m = RoundRobin then [c mod 2 ^ k + 1] else [c])\<rparr>)"
    unfolding upt using assms(2,3,5,6) lt cur
    by (simp add: at_vec_def and_pow2_minus_Suc0 push_at_def port_push_def mux_update_cursor_def
          Let_def outs)
  then show ?thesis using assms(1,2,3) R by (simp add: Mux_tick_def outs)
qed

lemma mux_ticks_snoc: "mux_ticks (Suc t) m = bindE (mux_ticks t m) Mux_tick"
proof (induction t arbitrary: m)
  case 0
  show ?case by (cases "Mux_tick m") simp_all
next
  case (Suc t)
  show ?case
  proof (cases "Mux_tick m")
    case (Inl e)
    then show ?thesis by simp
  next
    case (Inr m1)
    then show ?thesis using Suc.IH [of m1] by simp
  qed
qed

lemma rr_grants_le: "rr_grants R t i \<le> t"
  by (induction t) auto

lemma rr_grants_first_round: "n \<le> R \<Longrightarrow> rr_grants R n i = (if i < n then 1 else 0)"
  by (induction n) auto

lemma rr_grants_window: "0 < R \<Longrightarrow> i < R \<Longrightarrow> rr_grants R (t + R) i = rr_grants R t i + 1"
proof (induction t)
  case 0
  then show ?case by (simp add: rr_grants_first_round)
next
  case (Suc t)
  then show ?case by simp
qed

lemma mux_scan_empty:
  assumes "mux_cursors m = [c]" "length (mux_Inputs m) = 2 ^ k" "mux_num_reqs m = 2 ^ k"
    and "\<forall>r\<in>set rs. mux_Inputs m ! ((c + r) mod 2 ^ k) = []"
  shows "mux_scan rs 0 m = Inr m"
  using assms(4)
proof (induction rs)
  case Nil
  show ?case by simp
next
  case (Cons r rs)
  have lt: "\<not> (2::nat) ^ k \<le> (c + r) mod 2 ^ k" by (simp add: not_le)
  from Cons.prems have e: "mux_Inputs m ! ((c + r) mod 2 ^ k) = []" by simp
  have "mux_scan (r # rs) 0 m = mux_scan rs 0 m"
    using assms(1-3) lt e by (simp add: at_vec_def and_pow2_minus_Suc0 Let_def)
  then show ?case using Cons by simp
qed

lemma mux_scan_grant:
  assumes "mux_cursors m = [c]" "length (mux_Inputs m) = 2 ^ k" "mux_num_reqs m = 2 ^ k"
    and "mux_Outputs m = [out0]"
    and "\<forall>r'\<in>set pre. mux_Inputs m ! ((c + r') mod 2 ^ k) = []"
    and "mux_Inputs m ! ((c + r) mod 2 ^ k) = req # rest"
  shows "mux_scan (pre @ r # post) 0 m =
     Inr (m\<lparr>mux_Outputs := [out0 @ [(req, mux_delay m)]],
            mux_Inputs := (mux_Inputs m)[(c + r) mod 2 ^ k := rest],
            mux_cursors := (if mux_type m = RoundRobin then [(c + r) mod 2 ^ k + 1] else [c])\<rparr>)"
  using assms(5)
proof (induction pre)
  case Nil
  have lt: "\<not> (2::nat) ^ k \<le> (c + r) mod 2 ^ k" by (simp add: not_le)
  have cur: "m\<lparr>mux_Outputs := x, mux_Inputs := y\<rparr> = m\<lparr>mux_Outputs := x, mux_Inputs := y, mux_cursors := [c]\<rparr>"
    for x y using assms(1) by simp
  show ?case
    using assms(1-4,6) lt cur
    by (simp add: at_vec_def and_pow2_minus_Suc0 push_at_def port_push_def mux_update_cursor_def
          Let_def)
next
  case (Cons r' pre)
  have lt: "\<not> (2::nat) ^ k \<le> (c + r') mod 2 ^ k" by (simp add: not_le)
  from Cons.prems have e: "mux_Inputs m ! ((c + r') mod 2 ^ k) = []" by simp
  have "mux_scan ((r' # pre) @ r # post) 0 m = mux_scan (pre @ r # post) 0 m"
    using assms(1-3) lt e by (simp add: at_vec_def and_pow2_minus_Suc0 Let_def)
  then show ?case using Cons by simp
qed

lemma Mux_tick_idle:
  assumes "length (mux_Outputs m) = 1" "length (mux_Inputs m) = 2 ^ k" "mux_num_reqs m = 2 ^ k"
    and "mux_cursors m = [c]" "\<forall>i<2 ^ k. mux_Inputs m ! i = []"
  shows "Mux_tick m = Inr m"
proof -
  have "\<forall>r\<in>set [0..<2 ^ k]. mux_Inputs m ! ((c + r) mod 2 ^ k) = []"
    using assms(5) by simp
  from mux_scan_empty [OF assms(4,2,3) this]
  show ?thesis using assms(1,3) by (simp add: Mux_tick_def)
qed

lemma Mux_tick_first_nonempty:
  assumes "length (mux_Outputs m) = 1" "length (mux_Inputs m) = 2 ^ k" "mux_num_reqs m = 2 ^ k"
    and "0 < k" "mux_cursors m = [c]" "r < 2 ^ k"
    and "\<forall>r'<r. mux_Inputs m ! ((c + r') mod 2 ^ k) = []"
    and "mux_Inputs m ! ((c + r) mod 2 ^ k) = req # rest"
  shows "Mux_tick m =
     Inr (m\<lparr>mux_Outputs := [mux_Outputs m ! 0 @ [(req, mux_delay m)]],
            mux_Inputs := (mux_Inputs m)[(c + r) mod 2 ^ k := rest],
            mux_cursors := (if mux_type m = RoundRobin then [(c + r) mod 2 ^ k + 1] else [c])\<rparr>)"
proof -
  have R: "(2::nat) ^ k \<noteq> 1" using assms(4) by simp
  obtain out0 where outs: "mux_Outputs m = [out0]"
    using assms(1) by (cases "mux_Outputs m") simp_all
  have sp: "[0..<2 ^ k] = [0..<r] @ r # [Suc r..<2 ^ k]"
    using assms(6) upt_add_eq_append [of 0 r "2 ^ k - r"] by (simp add: upt_conv_Cons)
  have pre: "\<forall>r'\<in>set [0..<r]. mux_Inputs m ! ((c + r') mod 2 ^ k) = []"
    using assms(7) by simp
  from mux_scan_grant [OF assms(5,2,3) outs pre assms(8), of "[Suc r..<2 ^ k]"]
  have "mux_scan [0..<2 ^ k] 0 m =
     Inr (m\<lparr>mux_Outputs := [out0 @ [(req, mux_delay m)]],
            mux_Inputs := (mux_Inputs m)[(c + r) mod 2 ^ k := rest],
            mux_cursors := (if mux_type m = RoundRobin then [(c + r) mod 2 ^ k + 1] else [c])\<rparr>)"
    unfolding sp [symmetric] .
  then show ?thesis using assms(1,2,3) R by (simp add: Mux_tick_def outs)
qed

lemma rr_grants_mono: "t \<le> u \<Longrightarrow> rr_grants R t i \<le> rr_grants R u i"
  by (induction u) (auto simp: le_Suc_eq)

lemma rr_grants_in_window:
  assumes "0 < R" "t0 \<le> s" "s < t0 + R"
  shows "rr_grants R s (s mod R) = rr_grants R t0 (s mod R)"
proof -
  let ?i = "s mod R"
  have i: "?i < R" using assms(1) by simp
  have "rr_grants R (Suc s) ?i = rr_grants R s ?i + 1" by simp
  moreover have "rr_grants R (Suc s) ?i \<le> rr_grants R (t0 + R) ?i"
    using assms(3) by (intro rr_grants_mono) simp
  moreover have "rr_grants R (t0 + R) ?i = rr_grants R t0 ?i + 1"
    using rr_grants_window [OF assms(1) i] .
  moreover have "rr_grants R t0 ?i \<le> rr_grants R s ?i"
    using assms(2) by (rule rr_grants_mono)
  ultimately show ?thesis by simp
qed

lemma mux_run_backlogged:
  assumes "length (mux_Outputs m) = 1" "length (mux_Inputs m) = 2 ^ k" "mux_num_reqs m = 2 ^ k"
    and "0 < k" "mux_cursors m = [0]" "mux_type m = RoundRobin"
    and "\<forall>i<2 ^ k. n \<le> length (mux_Inputs m ! i)" and "t \<le> n"
  shows "\<exists>mt. mux_ticks t m = Inr mt \<and> mux_after (2 ^ k) m t mt"
  using assms(8)
proof (induction t)
  case 0
  then show ?case using assms(1-6) by (simp add: mux_after_def)
next
  case (Suc t)
  then obtain mt where run: "mux_ticks t m = Inr mt" and aft: "mux_after (2 ^ k) m t mt"
    by auto
  let ?R = "(2::nat) ^ k"
  from aft obtain c where c: "mux_cursors mt = [c]" "c mod ?R = t mod ?R"
    by (auto simp: mux_after_def)
  have lt: "t mod ?R < ?R" by simp
  let ?i = "t mod ?R"
  let ?g = "rr_grants ?R t ?i"
  have "?g \<le> t" by (rule rr_grants_le)
  then have g: "?g < length (mux_Inputs m ! ?i)" using assms(7) lt Suc.prems by fastforce
  have hd: "mux_Inputs mt ! (c mod ?R) = (mux_Inputs m ! ?i) ! ?g # drop (Suc ?g) (mux_Inputs m ! ?i)"
    using aft lt g by (simp add: mux_after_def c(2) Cons_nth_drop_Suc)
  have dims: "length (mux_Outputs mt) = 1" "length (mux_Inputs mt) = ?R" "mux_num_reqs mt = ?R"
    and ty: "mux_type mt = RoundRobin"
    using aft assms(6) by (simp_all add: mux_after_def)
  note step = Mux_tick_backlogged [OF dims assms(4) c(1) hd]
  let ?m' = "mt\<lparr>mux_Outputs := [mux_Outputs mt ! 0 @ [((mux_Inputs m ! ?i) ! ?g, mux_delay mt)]],
            mux_Inputs := (mux_Inputs mt)[c mod ?R := drop (Suc ?g) (mux_Inputs m ! ?i)],
            mux_cursors := [c mod ?R + 1]\<rparr>"
  have run': "mux_ticks (Suc t) m = Inr ?m'"
    unfolding mux_ticks_snoc run using step ty by simp
  have "mux_after ?R m (Suc t) ?m'"
    unfolding mux_after_def
  proof (intro conjI allI impI)
    fix i assume i: "i < ?R"
    show "mux_Inputs ?m' ! i = drop (rr_grants ?R (Suc t) i) (mux_Inputs m ! i)"
      using aft i dims(2) by (auto simp: mux_after_def c(2) nth_list_update)
  next
    show "\<exists>c'. mux_cursors ?m' = [c'] \<and> c' mod ?R = Suc t mod ?R"
      using c(2) by (simp add: mod_Suc_eq)
  next
    show "mux_Outputs ?m' ! 0 = mux_Outputs m ! 0 @
       map (\<lambda>s. (mux_Inputs m ! (s mod ?R) ! rr_grants ?R s (s mod ?R), mux_delay m)) [0..<Suc t]"
      using aft by (simp add: mux_after_def)
  qed (use aft in \<open>simp_all add: mux_after_def\<close>)
  with run' show ?case by blast
qed

text \<open>
  C7. A Mux with one output whose \<open>R = I\<close> inputs are a power of two, as the
  specification requires of \<open>R\<close>, and whose cursor is \<open>c\<close>. With a single input the Mux
  is in bypass (the constructor binds the input port to the output port, so that the
  input holds no items) and the tick does nothing. Otherwise a tick scans the inputs
  \<open>c, c + 1, \<dots>\<close> modulo \<open>R\<close>: if all are empty it does nothing; if not, it forwards the
  head of the first non-empty one with the configured delay and sets the cursor to
  the grant plus one under RoundRobin, leaving it alone under Priority. Under
  RoundRobin, from cursor 0 and with every input backlogged throughout, in any window
  of \<open>I\<close> consecutive ticks every input is granted exactly once: tick \<open>s\<close> of the window
  forwards the head of input \<open>s mod I\<close>, and at the end every input has lost exactly
  its head.
\<close>

theorem Mux_round_robin_window:
  assumes "length (mux_Inputs m) = 2 ^ k" and "length (mux_Outputs m) = 1"
    and "mux_num_reqs m = 2 ^ k" and "mux_cursors m = [c]"
  shows "(k = 0 \<longrightarrow> Mux_tick m = Inr m) \<and>
         ((\<forall>i<2 ^ k. mux_Inputs m ! i = []) \<longrightarrow> Mux_tick m = Inr m) \<and>
         (\<forall>r req rest. 0 < k \<and> r < 2 ^ k \<and>
            (\<forall>r'<r. mux_Inputs m ! ((c + r') mod 2 ^ k) = []) \<and>
            mux_Inputs m ! ((c + r) mod 2 ^ k) = req # rest \<longrightarrow>
            Mux_tick m =
              Inr (m\<lparr>mux_Outputs := [mux_Outputs m ! 0 @ [(req, mux_delay m)]],
                     mux_Inputs := (mux_Inputs m)[(c + r) mod 2 ^ k := rest],
                     mux_cursors := (if mux_type m = RoundRobin then [(c + r) mod 2 ^ k + 1]
                                     else [c])\<rparr>)) \<and>
         (0 < k \<and> mux_type m = RoundRobin \<and> c = 0 \<and>
          (\<forall>i<2 ^ k. t0 + 2 ^ k \<le> length (mux_Inputs m ! i)) \<longrightarrow>
            (\<exists>m1 m2. mux_ticks t0 m = Inr m1 \<and> mux_ticks (t0 + 2 ^ k) m = Inr m2 \<and>
               (\<forall>i<2 ^ k. mux_Inputs m1 ! i \<noteq> [] \<and>
                  mux_Inputs m2 ! i = tl (mux_Inputs m1 ! i)) \<and>
               mux_Outputs m2 ! 0 = mux_Outputs m1 ! 0 @
                 map (\<lambda>s. (hd (mux_Inputs m1 ! (s mod 2 ^ k)), mux_delay m)) [t0..<t0 + 2 ^ k]))"
proof -
  let ?R = "(2::nat) ^ k"
  have Z: "Mux_tick m = Inr m" if "k = 0"
    using that assms(1,2) by (simp add: Mux_tick_def)
  have I: "Mux_tick m = Inr m" if "\<forall>i<?R. mux_Inputs m ! i = []"
    using Mux_tick_idle [OF assms(2,1,3,4) that] .
  have A: "Mux_tick m =
              Inr (m\<lparr>mux_Outputs := [mux_Outputs m ! 0 @ [(req, mux_delay m)]],
                     mux_Inputs := (mux_Inputs m)[(c + r) mod ?R := rest],
                     mux_cursors := (if mux_type m = RoundRobin then [(c + r) mod ?R + 1]
                                     else [c])\<rparr>)"
    if "0 < k \<and> r < ?R \<and> (\<forall>r'<r. mux_Inputs m ! ((c + r') mod ?R) = []) \<and>
            mux_Inputs m ! ((c + r) mod ?R) = req # rest" for r req rest
    using that Mux_tick_first_nonempty [OF assms(2,1,3) _ assms(4), of r req rest] by simp
  have B: "\<exists>m1 m2. mux_ticks t0 m = Inr m1 \<and> mux_ticks (t0 + ?R) m = Inr m2 \<and>
               (\<forall>i<?R. mux_Inputs m1 ! i \<noteq> [] \<and> mux_Inputs m2 ! i = tl (mux_Inputs m1 ! i)) \<and>
               mux_Outputs m2 ! 0 = mux_Outputs m1 ! 0 @
                 map (\<lambda>s. (hd (mux_Inputs m1 ! (s mod ?R)), mux_delay m)) [t0..<t0 + ?R]"
    if h: "0 < k \<and> mux_type m = RoundRobin \<and> c = 0 \<and>
          (\<forall>i<?R. t0 + ?R \<le> length (mux_Inputs m ! i))"
  proof -
    from h have k: "0 < k" and rr: "mux_type m = RoundRobin" and c0: "mux_cursors m = [0]"
      and bl: "\<forall>i<?R. t0 + ?R \<le> length (mux_Inputs m ! i)" using assms(4) by simp_all
    have R0: "0 < ?R" by simp
    from mux_run_backlogged [OF assms(2,1,3) k c0 rr bl, of t0]
    obtain m1 where m1: "mux_ticks t0 m = Inr m1" "mux_after ?R m t0 m1" by auto
    from mux_run_backlogged [OF assms(2,1,3) k c0 rr bl, of "t0 + ?R"]
    obtain m2 where m2: "mux_ticks (t0 + ?R) m = Inr m2" "mux_after ?R m (t0 + ?R) m2" by auto
    have gl: "rr_grants ?R t0 i < length (mux_Inputs m ! i)" if i: "i < ?R" for i
    proof -
      have "rr_grants ?R t0 i \<le> t0" by (rule rr_grants_le)
      moreover have "t0 + ?R \<le> length (mux_Inputs m ! i)" using bl i by simp
      ultimately show ?thesis using R0 by linarith
    qed
    have ins: "mux_Inputs m1 ! i \<noteq> [] \<and> mux_Inputs m2 ! i = tl (mux_Inputs m1 ! i)"
      if i: "i < ?R" for i
    proof -
      have g: "rr_grants ?R (t0 + ?R) i = Suc (rr_grants ?R t0 i)"
        using i by (simp add: rr_grants_window)
      have 1: "mux_Inputs m1 ! i = drop (rr_grants ?R t0 i) (mux_Inputs m ! i)"
        and 2: "mux_Inputs m2 ! i = drop (Suc (rr_grants ?R t0 i)) (mux_Inputs m ! i)"
        using m1(2) m2(2) i g by (simp_all add: mux_after_def)
      show ?thesis using gl [OF i] by (simp add: 1 2 drop_Suc tl_drop)
    qed
    let ?f = "\<lambda>s. (mux_Inputs m ! (s mod ?R) ! rr_grants ?R s (s mod ?R), mux_delay m)"
    have o1: "mux_Outputs m1 ! 0 = mux_Outputs m ! 0 @ map ?f [0..<t0]"
      and o2: "mux_Outputs m2 ! 0 = mux_Outputs m ! 0 @ map ?f [0..<t0 + ?R]"
      using m1(2) m2(2) by (simp_all add: mux_after_def)
    have "[0..<t0 + ?R] = [0..<t0] @ [t0..<t0 + ?R]"
      using upt_add_eq_append [of 0 t0 ?R] by simp
    then have o3: "mux_Outputs m2 ! 0 = mux_Outputs m1 ! 0 @ map ?f [t0..<t0 + ?R]"
      using o1 o2 by simp
    have "map ?f [t0..<t0 + ?R] =
        map (\<lambda>s. (hd (mux_Inputs m1 ! (s mod ?R)), mux_delay m)) [t0..<t0 + ?R]"
    proof (rule map_cong [OF refl])
      fix s assume "s \<in> set [t0..<t0 + ?R]"
      then have s: "t0 \<le> s" "s < t0 + ?R" by simp_all
      let ?i = "s mod ?R"
      have i: "?i < ?R" by simp
      have "rr_grants ?R s ?i = rr_grants ?R t0 ?i"
        using rr_grants_in_window [OF R0 s] .
      moreover have "mux_Inputs m1 ! ?i = drop (rr_grants ?R t0 ?i) (mux_Inputs m ! ?i)"
        using m1(2) i by (simp add: mux_after_def)
      ultimately show "?f s = (hd (mux_Inputs m1 ! ?i), mux_delay m)"
        using gl [OF i] by (simp add: hd_drop_conv_nth)
    qed
    with o3 have "mux_Outputs m2 ! 0 = mux_Outputs m1 ! 0 @
        map (\<lambda>s. (hd (mux_Inputs m1 ! (s mod ?R)), mux_delay m)) [t0..<t0 + ?R]"
      by simp
    with ins m1(1) m2(1) show ?thesis by blast
  qed
  show ?thesis
    apply (intro conjI)
    subgoal using Z by blast
    subgoal using I by blast
    subgoal using A by blast
    subgoal using B by blast
    done
qed

theorem Mux_round_robin_window_witness:
  "(\<exists>m1 m2. mux_ticks 1 mux4 = Inr m1 \<and> mux_ticks (1 + 2 ^ 2) mux4 = Inr m2 \<and>
      mux_Inputs m2 ! 0 = tl (mux_Inputs m1 ! 0) \<and>
      mux_Inputs m2 ! 1 = tl (mux_Inputs m1 ! 1) \<and>
      mux_Inputs m2 ! 2 = tl (mux_Inputs m1 ! 2) \<and>
      mux_Inputs m2 ! 3 = tl (mux_Inputs m1 ! 3) \<and>
      mux_Outputs m1 ! 0 = [(10, 1)] \<and>
      mux_Outputs m2 ! 0 = [(10, 1), (20, 1), (30, 1), (40, 1), (11, 1)]) \<and>
   Mux_tick (mux4\<lparr>mux_Inputs := [[], [21], [], []], mux_cursors := [3]\<rparr>) =
     Inr (mux4\<lparr>mux_Outputs := [[(21, 1)]], mux_Inputs := [[], [], [], []],
               mux_cursors := [2]\<rparr>) \<and>
   Mux_tick (mux4\<lparr>mux_Inputs := [[], [21], [31], []], mux_type := Priority\<rparr>) =
     Inr (mux4\<lparr>mux_Outputs := [[(21, 1)]], mux_Inputs := [[], [], [31], []],
               mux_type := Priority\<rparr>) \<and>
   Mux_tick (mux4\<lparr>mux_Inputs := [[], [], [], []]\<rparr>) = Inr (mux4\<lparr>mux_Inputs := [[], [], [], []]\<rparr>)"
proof -
  have h: "length (mux_Inputs mux4) = 2 ^ 2" "length (mux_Outputs mux4) = 1"
      "mux_num_reqs mux4 = 2 ^ 2" "mux_cursors mux4 = [0]"
    by (simp_all add: mux4_def)
  have b: "(0::nat) < 2 \<and> mux_type mux4 = RoundRobin \<and> (0::nat) = 0 \<and>
      (\<forall>i<2 ^ 2. 1 + 2 ^ 2 \<le> length (mux_Inputs mux4 ! i))"
    by (simp add: mux4_def All_less_Suc eval_nat_numeral)
  from Mux_round_robin_window [OF h, of 1, THEN conjunct2, THEN conjunct2, THEN conjunct2,
      rule_format, OF b]
  obtain m1 m2 where r: "mux_ticks 1 mux4 = Inr m1" "mux_ticks (1 + 2 ^ 2) mux4 = Inr m2"
    "\<forall>i<2 ^ 2. mux_Inputs m1 ! i \<noteq> [] \<and> mux_Inputs m2 ! i = tl (mux_Inputs m1 ! i)"
    "mux_Outputs m2 ! 0 = mux_Outputs m1 ! 0 @
       map (\<lambda>s. (hd (mux_Inputs m1 ! (s mod 2 ^ 2)), mux_delay mux4)) [1..<1 + 2 ^ 2]"
    by blast
  have "mux_ticks 1 mux4 =
      Inr (mux4\<lparr>mux_Outputs := [[(10, 1)]],
                mux_Inputs := [[11, 12, 13, 14], [20, 21, 22, 23, 24], [30, 31, 32, 33, 34],
                               [40, 41, 42, 43, 44]],
                mux_cursors := [1]\<rparr>)"
    by (simp add: mux4_def Mux_tick_def at_vec_def push_at_def port_push_def
        mux_update_cursor_def upt_rec Let_def)
  with r(1) have m1: "m1 = mux4\<lparr>mux_Outputs := [[(10, 1)]],
                mux_Inputs := [[11, 12, 13, 14], [20, 21, 22, 23, 24], [30, 31, 32, 33, 34],
                               [40, 41, 42, 43, 44]],
                mux_cursors := [1]\<rparr>"
    by simp
  have o1: "mux_Outputs m1 ! 0 = [(10, 1)]" by (simp add: m1)
  have u5: "[1..<1 + 2 ^ 2] = [1, 2, 3, 4::nat]"
    by (simp add: upt_conv_Cons)
  have o2: "mux_Outputs m2 ! 0 = [(10, 1), (20, 1), (30, 1), (40, 1), (11, 1)]"
    unfolding r(4) u5 by (simp add: m1 mux4_def)
  have "(0::nat) < 2 ^ 2" "(1::nat) < 2 ^ 2" "(2::nat) < 2 ^ 2" "(3::nat) < 2 ^ 2" by simp_all
  with r(3) have t: "mux_Inputs m2 ! 0 = tl (mux_Inputs m1 ! 0)"
    "mux_Inputs m2 ! 1 = tl (mux_Inputs m1 ! 1)"
    "mux_Inputs m2 ! 2 = tl (mux_Inputs m1 ! 2)"
    "mux_Inputs m2 ! 3 = tl (mux_Inputs m1 ! 3)"
    by blast+
  let ?S = "mux4\<lparr>mux_Inputs := [[], [21], [], []], mux_cursors := [3]\<rparr>"
  have hS: "length (mux_Inputs ?S) = 2 ^ 2" "length (mux_Outputs ?S) = 1"
      "mux_num_reqs ?S = 2 ^ 2" "mux_cursors ?S = [3]"
    by (simp_all add: mux4_def)
  have bS: "(0::nat) < 2 \<and> (2::nat) < 2 ^ 2 \<and>
      (\<forall>r'<2. mux_Inputs ?S ! ((3 + r') mod 2 ^ 2) = []) \<and>
      mux_Inputs ?S ! ((3 + 2) mod 2 ^ 2) = 21 # []"
    by (auto simp: mux4_def less_2_cases_iff)
  from Mux_round_robin_window [OF hS, THEN conjunct2, THEN conjunct2, THEN conjunct1,
      rule_format, OF bS]
  have 2: "Mux_tick ?S =
     Inr (mux4\<lparr>mux_Outputs := [[(21, 1)]], mux_Inputs := [[], [], [], []],
               mux_cursors := [2]\<rparr>)"
    by (simp add: mux4_def)
  let ?P = "mux4\<lparr>mux_Inputs := [[], [21], [31], []], mux_type := Priority\<rparr>"
  have hP: "length (mux_Inputs ?P) = 2 ^ 2" "length (mux_Outputs ?P) = 1"
      "mux_num_reqs ?P = 2 ^ 2" "mux_cursors ?P = [0]"
    by (simp_all add: mux4_def)
  have bP: "(0::nat) < 2 \<and> (1::nat) < 2 ^ 2 \<and>
      (\<forall>r'<1. mux_Inputs ?P ! ((0 + r') mod 2 ^ 2) = []) \<and>
      mux_Inputs ?P ! ((0 + 1) mod 2 ^ 2) = 21 # []"
    by (simp add: mux4_def)
  from Mux_round_robin_window [OF hP, THEN conjunct2, THEN conjunct2, THEN conjunct1,
      rule_format, OF bP]
  have 3: "Mux_tick ?P =
     Inr (mux4\<lparr>mux_Outputs := [[(21, 1)]], mux_Inputs := [[], [], [31], []],
               mux_type := Priority\<rparr>)"
    by (simp add: mux4_def)
  let ?E = "mux4\<lparr>mux_Inputs := [[], [], [], []]\<rparr>"
  have hE: "length (mux_Inputs ?E) = 2 ^ 2" "length (mux_Outputs ?E) = 1"
      "mux_num_reqs ?E = 2 ^ 2" "mux_cursors ?E = [0]"
    by (simp_all add: mux4_def)
  have bE: "\<forall>i<2 ^ 2. mux_Inputs ?E ! i = []"
    by (simp add: mux4_def All_less_Suc eval_nat_numeral)
  from Mux_round_robin_window [OF hE, THEN conjunct2, THEN conjunct1, THEN mp, OF bE]
  have 4: "Mux_tick ?E = Inr ?E" .
  from r(1,2) t o1 o2 2 3 4 show ?thesis by blast
qed

subsection \<open>Switch: tags\<close>

lemma bit_nat_less: "(i::nat) < 2 ^ k \<Longrightarrow> bit i n \<Longrightarrow> n < k"
  by (metis bit_take_bit_iff take_bit_nat_eq_self)

lemma switch_encode_take_bit:
  assumes "i < 2 ^ k"
  shows "take_bit k (switch_encode k tag i) = (of_nat i :: 32 word)"
  unfolding switch_encode_def
  by (rule bit_word_eqI) (use assms in \<open>auto simp: bit_simps dest: bit_nat_less\<close>)

lemma switch_encode_low_bits:
  assumes "i < 2 ^ k" "k \<le> 32"
  shows "unat (take_bit k (switch_encode k tag i)) = i"
proof -
  have "(2::nat) ^ k \<le> 2 ^ 32" by (rule power_increasing [OF assms(2)]) simp
  then have "i < 2 ^ 32" using assms(1) by linarith
  then show ?thesis by (simp add: switch_encode_take_bit [OF assms(1)] unat_of_nat)
qed

lemma and_pow2_word: "(t :: 'a::len word) AND of_nat (2 ^ k - 1) = take_bit k t"
proof -
  have "(of_nat (2 ^ k - 1) :: 'a word) = mask k"
    by (simp add: mask_eq_exp_minus_1 of_nat_diff)
  then show ?thesis by (simp add: take_bit_eq_mask)
qed

lemma and_pow2_word_minus: "(t :: 'a::len word) AND (2 ^ k - 1) = take_bit k t"
  by (simp add: take_bit_eq_mask mask_eq_exp_minus_1)

lemma switch_decode_eq:
  assumes "k \<le> 32"
  shows "switch_decode k t = (unat (take_bit k t), drop_bit k t)"
proof -
  have "(ucast (take_bit k t) :: 32 word) = take_bit k (ucast t)"
    by (rule bit_word_eqI) (use assms in \<open>auto simp: bit_simps\<close>)
  moreover have "unat (take_bit k (ucast t :: 32 word)) = unat (take_bit k t)"
    using assms by (simp add: unsigned_take_bit_eq unsigned_ucast_eq min_def take_bit_take_bit)
  ultimately show ?thesis by (simp add: switch_decode_def and_pow2_word_minus)
qed

lemma switch_round_trip:
  assumes "i < 2 ^ k" "k \<le> 32"
  shows "switch_decode k (ucast (switch_encode k tag i)) = (i, ucast (take_bit (32 - k) tag))"
proof -
  have 1: "take_bit k (ucast (switch_encode k tag i) :: 64 word) = of_nat i"
    unfolding switch_encode_def
    by (rule bit_word_eqI) (use assms in \<open>auto simp: bit_simps dest: bit_nat_less\<close>)
  have "(2::nat) ^ k \<le> 2 ^ 32" by (rule power_increasing [OF assms(2)]) simp
  then have "i < 2 ^ 32" using assms(1) by linarith
  then have "i < 2 ^ 64" by simp
  then have a: "unat (take_bit k (ucast (switch_encode k tag i) :: 64 word)) = i"
    by (simp add: 1 unat_of_nat)
  have b: "drop_bit k (ucast (switch_encode k tag i) :: 64 word) = ucast (take_bit (32 - k) tag)"
    unfolding switch_encode_def
    by (rule bit_word_eqI) (use assms in \<open>auto simp: bit_simps dest: bit_nat_less\<close>)
  show ?thesis by (simp add: switch_decode_eq [OF assms(2)] a b)
qed

lemma switch_take_bit_small:
  assumes "unat (tag :: 32 word) < 2 ^ (32 - k)"
  shows "take_bit (32 - k) tag = tag"
  using assms by (simp add: word_unat_eq_iff unsigned_take_bit_eq take_bit_nat_eq_self)


lemma sw_update_cursor_Inr:
  "sw_update_cursor index grant sw = Inr sw' \<Longrightarrow>
     ReqIn sw' = ReqIn sw \<and> ReqOut sw' = ReqOut sw \<and> RspIn sw' = RspIn sw \<and>
     RspOut sw' = RspOut sw \<and> lg_num_reqs sw' = lg_num_reqs sw \<and> sw_delay sw' = sw_delay sw"
  by (auto simp: sw_update_cursor_def split: if_splits)

lemma sw_req_scan_Inr:
  assumes "sw_req_scan rs out sw = Inr sw'" "lg_num_reqs sw \<noteq> 0"
  shows "sw' = sw \<or> (\<exists>i. sw_granted out i sw sw')"
  using assms
proof (induction rs)
  case Nil
  then show ?case by simp
next
  case (Cons r rs)
  let ?R = "(2::nat) ^ lg_num_reqs sw"
  from Cons.prems(1) obtain cursor where c: "at_vec (sw_cursors sw) out = Inr cursor"
    by (auto simp: bindE_Inr_iff)
  let ?i = "(cursor + r) AND (?R - 1)"
  let ?j = "out * ?R + ?i"
  have i: "?i < ?R" by (simp add: and_pow2_minus_Suc0)
  show ?case
  proof (cases "length (ReqIn sw) \<le> ?j")
    case True
    then have "sw_req_scan rs out sw = Inr sw'" using Cons.prems(1) c by (simp add: Let_def)
    then show ?thesis using Cons.IH Cons.prems(2) by simp
  next
    case False
    show ?thesis
    proof (cases "ReqIn sw ! ?j")
      case Nil
      then have "sw_req_scan rs out sw = Inr sw'" using Cons.prems(1) c False by (simp add: Let_def)
      then show ?thesis using Cons.IH Cons.prems(2) by simp
    next
      case (Cons req rest)
      let ?req = "req\<lparr>mreq_tag := switch_encode (lg_num_reqs sw) (mreq_tag req) ?i\<rparr>"
      from Cons.prems(1) c False Cons \<open>lg_num_reqs sw \<noteq> 0\<close>
      obtain outs where p: "push_at (ReqOut sw) out ?req (sw_delay sw) = Inr outs"
        and u: "sw_update_cursor out ?i (sw\<lparr>ReqOut := outs, ReqIn := (ReqIn sw)[?j := rest]\<rparr>) = Inr sw'"
        by (auto simp: Let_def bindE_Inr_iff)
      from p have o: "out < length (ReqOut sw)"
        "outs = (ReqOut sw)[out := ReqOut sw ! out @ [(?req, sw_delay sw)]]"
        by (simp_all add: push_at_Inr_iff)
      from sw_update_cursor_Inr [OF u] have "sw_granted out ?i sw sw'"
        using i False Cons o by (simp add: sw_granted_def)
      then show ?thesis by blast
    qed
  qed
qed

lemma sw_rsp_step_eq:
  assumes "out < length (RspOut sw)" "RspOut sw ! out = rsp # rest"
    and "lg_num_reqs sw \<noteq> 0" "lg_num_reqs sw \<le> 32"
    and "out * 2 ^ lg_num_reqs sw + unat (take_bit (lg_num_reqs sw) (mrsp_tag rsp)) < length (RspIn sw)"
  shows "sw_rsp_step out sw =
     Inr (sw\<lparr>RspIn := (RspIn sw)[out * 2 ^ lg_num_reqs sw + unat (take_bit (lg_num_reqs sw) (mrsp_tag rsp)) :=
                RspIn sw ! (out * 2 ^ lg_num_reqs sw + unat (take_bit (lg_num_reqs sw) (mrsp_tag rsp))) @
                  [(rsp\<lparr>mrsp_tag := drop_bit (lg_num_reqs sw) (mrsp_tag rsp)\<rparr>, 1)]],
             RspOut := (RspOut sw)[out := rest]\<rparr>)"
  using assms
  by (simp add: sw_rsp_step_def at_vec_def switch_decode_eq push_at_def port_push_def Let_def)


text \<open>
  C4, as the code has it. The tag of a \<^verbatim>\<open>MemReq\<close> is a \<^verbatim>\<open>uint32_t\<close>, and the shift of the
  encoding drops its high bits: with \<open>k = 1\<close>, a request with the tag \<^verbatim>\<open>0x80000000\<close> on
  input 1 is forwarded by the tick with the tag 1, and the response that carries the
  tag 1 back is delivered to input 1 with the tag 0, not the original tag.
\<close>

theorem Switch_tag_round_trip_counterexample:
  "Switch_tick (scenario_switch\<lparr>ReqIn := [[], [\<lparr>mreq_addr = 4096, mreq_write = False,
        mreq_type = Global, mreq_tag = 2147483648, mreq_cid = 0, mreq_uuid = 7\<rparr>]],
      RspOut := [[]]\<rparr>) =
     Inr (scenario_switch\<lparr>ReqIn := [[], []], RspOut := [[]],
        ReqOut := [[(\<lparr>mreq_addr = 4096, mreq_write = False,
          mreq_type = Global, mreq_tag = 1, mreq_cid = 0, mreq_uuid = 7\<rparr>, 1)]],
        sw_cursors := [2]\<rparr>) \<and>
   Switch_tick (scenario_switch\<lparr>ReqIn := [[], []],
      RspOut := [[\<lparr>mrsp_tag = 1, mrsp_cid = 0, mrsp_uuid = 7\<rparr>]]\<rparr>) =
     Inr (scenario_switch\<lparr>ReqIn := [[], []], RspOut := [[]],
        RspIn := [[], [(\<lparr>mrsp_tag = 0, mrsp_cid = 0, mrsp_uuid = 7\<rparr>, 1)]]\<rparr>) \<and>
   switch_decode 1 (ucast (switch_encode 1 2147483648 1)) = (1, 0) \<and>
   (ucast (2147483648 :: 32 word) :: 64 word) \<noteq> 0"
  by (simp add: scenario_switch_def Switch_tick_def sw_output_def sw_rsp_step_def
       sw_update_cursor_def switch_decode_def switch_encode_def at_vec_def push_at_def
       port_push_def upt_rec Let_def)

text \<open>
  C4, amended. For a Switch with \<open>R = 2 ^ k\<close> inputs per output, \<open>1 \<le> k \<le> 32\<close>: a request
  scan either grants nothing or forwards the head of an input \<open>out * R + i\<close> with the
  tag \<^verbatim>\<open>(tag << k) | i\<close>, whose low \<open>k\<close> bits are \<open>i\<close>; a response on output \<open>out\<close> with tag
  \<open>t\<close> is delivered to the response port \<open>out * R + (t & (R-1))\<close> with the tag \<open>t >> k\<close>
  and delay 1; and encoding followed by decoding, through a downstream that returns
  the tag unchanged, gives back the input index and the original tag modulo
  \<open>2 ^ (32 - k)\<close>, hence the original tag whenever it is below \<open>2 ^ (32 - k)\<close>.
\<close>

theorem Switch_tag_round_trip:
  assumes "lg_num_reqs sw = k" and "0 < k" and "k \<le> 32"
  shows "(\<forall>rs out sw'. sw_req_scan rs out sw = Inr sw' \<longrightarrow>
            sw' = sw \<or> (\<exists>i. sw_granted out i sw sw')) \<and>
         (\<forall>tag i. i < 2 ^ k \<longrightarrow> unat (take_bit k (switch_encode k tag i)) = i) \<and>
         (\<forall>out rsp rest.
            out < length (RspOut sw) \<and> RspOut sw ! out = rsp # rest \<and>
            out * 2 ^ k + unat (take_bit k (mrsp_tag rsp)) < length (RspIn sw) \<longrightarrow>
            sw_rsp_step out sw =
              Inr (sw\<lparr>RspIn := (RspIn sw)[out * 2 ^ k + unat (take_bit k (mrsp_tag rsp)) :=
                       RspIn sw ! (out * 2 ^ k + unat (take_bit k (mrsp_tag rsp))) @
                         [(rsp\<lparr>mrsp_tag := drop_bit k (mrsp_tag rsp)\<rparr>, 1)]],
                     RspOut := (RspOut sw)[out := rest]\<rparr>)) \<and>
         (\<forall>tag i. i < 2 ^ k \<longrightarrow>
            switch_decode k (ucast (switch_encode k tag i)) = (i, ucast (take_bit (32 - k) tag))) \<and>
         (\<forall>tag i. i < 2 ^ k \<and> unat tag < 2 ^ (32 - k) \<longrightarrow>
            switch_decode k (ucast (switch_encode k tag i)) = (i, ucast tag))"
proof -
  have nz: "lg_num_reqs sw \<noteq> 0" using assms(1,2) by simp
  have A: "\<forall>rs out sw'. sw_req_scan rs out sw = Inr sw' \<longrightarrow>
            sw' = sw \<or> (\<exists>i. sw_granted out i sw sw')"
    using sw_req_scan_Inr [OF _ nz] by blast
  have B: "\<forall>tag i. i < 2 ^ k \<longrightarrow> unat (take_bit k (switch_encode k tag i)) = i"
    using switch_encode_low_bits [OF _ assms(3)] by blast
  have C: "\<forall>out rsp rest.
            out < length (RspOut sw) \<and> RspOut sw ! out = rsp # rest \<and>
            out * 2 ^ k + unat (take_bit k (mrsp_tag rsp)) < length (RspIn sw) \<longrightarrow>
            sw_rsp_step out sw =
              Inr (sw\<lparr>RspIn := (RspIn sw)[out * 2 ^ k + unat (take_bit k (mrsp_tag rsp)) :=
                       RspIn sw ! (out * 2 ^ k + unat (take_bit k (mrsp_tag rsp))) @
                         [(rsp\<lparr>mrsp_tag := drop_bit k (mrsp_tag rsp)\<rparr>, 1)]],
                     RspOut := (RspOut sw)[out := rest]\<rparr>)"
    using sw_rsp_step_eq [of _ sw] nz assms(1,3) by auto
  have D: "\<forall>tag i. i < 2 ^ k \<longrightarrow>
            switch_decode k (ucast (switch_encode k tag i)) = (i, ucast (take_bit (32 - k) tag))"
    using switch_round_trip [OF _ assms(3)] by blast
  have E: "\<forall>tag i. i < 2 ^ k \<and> unat tag < 2 ^ (32 - k) \<longrightarrow>
            switch_decode k (ucast (switch_encode k tag i)) = (i, ucast tag)"
    using switch_round_trip [OF _ assms(3)] switch_take_bit_small by auto
  show ?thesis by (intro conjI A B C D E)
qed

theorem Switch_tag_round_trip_witness:
  "Switch_tick scenario_switch =
     Inr (scenario_switch\<lparr>ReqIn := [[], []], RspOut := [[]],
        RspIn := [[], [(\<lparr>mrsp_tag = 5, mrsp_cid = 0, mrsp_uuid = 7\<rparr>, 1)]],
        ReqOut := [[(\<lparr>mreq_addr = 4096, mreq_write = False,
          mreq_type = Global, mreq_tag = 11, mreq_cid = 0, mreq_uuid = 7\<rparr>, 1)]],
        sw_cursors := [2]\<rparr>) \<and>
   sw_rsp_step 0 scenario_switch =
     Inr (scenario_switch\<lparr>RspIn := [[], [(\<lparr>mrsp_tag = 5, mrsp_cid = 0, mrsp_uuid = 7\<rparr>, 1)]],
                          RspOut := [[]]\<rparr>) \<and>
   switch_encode 1 5 1 = 11 \<and>
   switch_decode 1 (ucast (switch_encode 1 5 1)) = (1, 5) \<and>
   unat (take_bit 1 (switch_encode 1 5 1)) = 1"
proof -
  have h: "lg_num_reqs scenario_switch = 1" "(0::nat) < 1" "(1::nat) \<le> 32"
    by (simp_all add: scenario_switch_def)
  note T = Switch_tag_round_trip [OF h]
  have r: "0 < length (RspOut scenario_switch) \<and>
      RspOut scenario_switch ! 0 = \<lparr>mrsp_tag = 11, mrsp_cid = 0, mrsp_uuid = 7\<rparr> # [] \<and>
      0 * 2 ^ 1 + unat (take_bit 1 (mrsp_tag \<lparr>mrsp_tag = 11, mrsp_cid = 0, mrsp_uuid = 7\<rparr>))
        < length (RspIn scenario_switch)"
    by (simp add: scenario_switch_def)
  from T [THEN conjunct2, THEN conjunct2, THEN conjunct1, rule_format, OF r]
  have 1: "sw_rsp_step 0 scenario_switch =
     Inr (scenario_switch\<lparr>RspIn := [[], [(\<lparr>mrsp_tag = 5, mrsp_cid = 0, mrsp_uuid = 7\<rparr>, 1)]],
                          RspOut := [[]]\<rparr>)"
    by (simp add: scenario_switch_def drop_bit_eq_div)
  have i: "(1::nat) < 2 ^ 1 \<and> unat (5 :: 32 word) < 2 ^ (32 - 1)" by simp
  from T [THEN conjunct2, THEN conjunct2, THEN conjunct2, THEN conjunct2, rule_format, OF i]
  have 2: "switch_decode 1 (ucast (switch_encode 1 5 1)) = (1, 5)" by simp
  from T [THEN conjunct2, THEN conjunct1, rule_format, of 1 5]
  have 3: "unat (take_bit 1 (switch_encode 1 5 1)) = 1" by simp
  have 4: "switch_encode 1 5 1 = 11" by (simp add: switch_encode_def)
  have 5: "Switch_tick scenario_switch =
     Inr (scenario_switch\<lparr>ReqIn := [[], []], RspOut := [[]],
        RspIn := [[], [(\<lparr>mrsp_tag = 5, mrsp_cid = 0, mrsp_uuid = 7\<rparr>, 1)]],
        ReqOut := [[(\<lparr>mreq_addr = 4096, mreq_write = False,
          mreq_type = Global, mreq_tag = 11, mreq_cid = 0, mreq_uuid = 7\<rparr>, 1)]],
        sw_cursors := [2]\<rparr>)"
    by (simp add: scenario_switch_def Switch_tick_def sw_output_def sw_rsp_step_def
         sw_update_cursor_def switch_decode_def switch_encode_def at_vec_def push_at_def
         port_push_def upt_rec Let_def)
  from 1 2 3 4 5 show ?thesis by blast
qed

end
